theory Spec2Isabelle
  imports Main "HOL-Library.Finite_Map" "HOL-Library.Char_ord" "HOL-Library.List_Lexorder"
begin
section \<open>Status values\<close>

text \<open>
  The status codes the sequencer produces itself are \<open>OK\<close>, \<open>INVALID_ARGUMENT\<close>,
  \<open>NOT_FOUND\<close>, \<open>ABORTED\<close> and \<open>UNKNOWN\<close>; a worker may answer with any other
  code of the transport, which \<open>OTHER_CODE\<close> stands for.  The transport's and the
  utility library's status types are both a code with a message.
\<close>

datatype StatusCode = OK | INVALID_ARGUMENT | NOT_FOUND | ABORTED | UNKNOWN | OTHER_CODE nat

record Status =
  error_code :: StatusCode
  error_message :: string

definition ok :: "Status \<Rightarrow> bool" where
  "ok st = (error_code st = OK)"

definition OkStatus :: Status where
  "OkStatus = \<lparr>error_code = OK, error_message = []\<rparr>"

definition InvalidArgumentError :: "string \<Rightarrow> Status" where
  "InvalidArgumentError msg = \<lparr>error_code = INVALID_ARGUMENT, error_message = msg\<rparr>"

definition NotFoundError :: "string \<Rightarrow> Status" where
  "NotFoundError msg = \<lparr>error_code = NOT_FOUND, error_message = msg\<rparr>"

section \<open>Decimal rendering of integers (\<open>absl::StrCat\<close> on an \<open>int\<close>)\<close>

definition digit_char :: "nat \<Rightarrow> char" where
  "digit_char d = ''0123456789'' ! d"

fun nat_digits :: "nat \<Rightarrow> string" where
  "nat_digits n = (if n < 10 then [digit_char n] else nat_digits (n div 10) @ [digit_char (n mod 10)])"

declare nat_digits.simps [simp del]

definition int_digits :: "int \<Rightarrow> string" where
  "int_digits i = (if i < 0 then CHR ''-'' # nat_digits (nat (- i)) else nat_digits (nat i))"

section \<open>Registry\<close>

text \<open>
  The messages have the fields the sequencer reads and writes.  Values of the C++ types
  \<open>int\<close> and \<open>int32\<close> are integers here: the sequencer compares them with zero, prints
  them and converts the size of a map to them, and does no other arithmetic on them.
\<close>

record NodeRegistration =
  hostname :: string
  control_port :: int

record NodeConfig =
  node_id :: int
  node_alias :: string

text \<open>A stub is a client bound to the address of the channel it was created on.\<close>

datatype Stub = Stub string

text \<open>
  Modelled from the spec: the declaration of \<open>Node\<close> is in the header of the sequencer,
  which is not part of the sources at hand.  A node has its registration, its stub (a
  pointer that may be null) and the flag \<open>idle\<close>, which is true initially.
\<close>

record Node =
  registration :: NodeRegistration
  stub :: "Stub option"
  idle :: bool

definition default_Node :: Node where
  "default_Node = \<lparr>registration = \<lparr>hostname = [], control_port = 0\<rparr>, stub = None, idle = True\<rparr>"

text \<open>The remote calls a sequencer can issue to a node, recorded in issue order.\<close>

datatype RpcCall =
    ConfigureNodeRpc string "string list"
  | IntroducePeersRpc string
  | RunTrafficRpc string
  | CancelTrafficRpc string

text \<open>
  The state of a sequencer: the two maps of the registry, and the history of the remote
  calls it has issued (a ghost field, which no operation reads).
\<close>

record TestSequencer =
  node_map :: "(string, Node) fmap"
  node_id_map :: "(string, int) fmap"
  issued_rpcs :: "RpcCall list"

definition initial_sequencer :: TestSequencer where
  "initial_sequencer = \<lparr>node_map = fmempty, node_id_map = fmempty, issued_rpcs = []\<rparr>"

text \<open>\<open>std::map::size\<close> and \<open>std::map::operator[]\<close>, which inserts a default value.\<close>

definition map_size :: "('k, 'v) fmap \<Rightarrow> nat" where
  "map_size m = card (fmdom' m)"

definition map_at :: "'v \<Rightarrow> ('k, 'v) fmap \<Rightarrow> 'k \<Rightarrow> 'v" where
  "map_at dflt m k = (case fmlookup m k of None \<Rightarrow> dflt | Some v \<Rightarrow> v)"

text \<open>
  \<open>RegisterNode\<close>.  The serialisation \<open>DebugString\<close> of a registration and the outcome
  \<open>NewStub\<close> of building a stub on an address are parameters: the first is generated
  from the message schema, the second is decided by the transport.  The response object
  is passed in and handed back, written only on success.
\<close>

definition RegisterNode ::
  "(NodeRegistration \<Rightarrow> string) \<Rightarrow> (string \<Rightarrow> Stub option) \<Rightarrow>
   TestSequencer \<Rightarrow> NodeRegistration \<Rightarrow> NodeConfig \<Rightarrow> Status \<times> NodeConfig \<times> TestSequencer" where
  "RegisterNode DebugString NewStub s request response =
    (if hostname request = [] \<or> control_port request \<le> 0 then
       (\<lparr>error_code = INVALID_ARGUMENT, error_message = ''Invalid Registration''\<rparr>, response, s)
     else
       let registration = DebugString request;
           node_id = (case fmlookup (node_id_map s) registration of
                        Some known \<Rightarrow> known
                      | None \<Rightarrow> int (map_size (node_map s)));
           s1 = (case fmlookup (node_id_map s) registration of
                   Some known \<Rightarrow> s
                 | None \<Rightarrow> s\<lparr>node_id_map := fmupd registration node_id (node_id_map s)\<rparr>);
           node_service = ''dns:///'' @ hostname request @ '':'' @ int_digits (control_port request)
       in case NewStub node_service of
            Some new_stub \<Rightarrow>
              let response1 = response\<lparr>node_id := node_id, node_alias := ''node'' @ int_digits node_id\<rparr>;
                  node = map_at default_Node (node_map s1) (node_alias response1);
                  node1 = node\<lparr>registration := request, stub := Some new_stub\<rparr>
              in (OkStatus, response1,
                  s1\<lparr>node_map := fmupd (node_alias response1) node1 (node_map s1)\<rparr>)
          | None \<Rightarrow>
              (\<lparr>error_code = UNKNOWN, error_message = ''Could not create node stub.''\<rparr>, response, s1))"

text \<open>
  A client that registers one node after the other; every call gets a fresh response
  object.  Each call comes with the outcome the transport gives to its stub construction.
\<close>

definition fresh_NodeConfig :: NodeConfig where
  "fresh_NodeConfig = \<lparr>node_id = 0, node_alias = []\<rparr>"

fun RegisterNodes ::
  "(NodeRegistration \<Rightarrow> string) \<Rightarrow> TestSequencer \<Rightarrow>
   (NodeRegistration \<times> (string \<Rightarrow> Stub option)) list \<Rightarrow>
   (Status \<times> NodeConfig) list \<times> TestSequencer" where
  "RegisterNodes DebugString s [] = ([], s)"
| "RegisterNodes DebugString s ((request, NewStub) # calls) =
    (case RegisterNode DebugString NewStub s request fresh_NodeConfig of
       (st, response, s1) \<Rightarrow>
         (case RegisterNodes DebugString s1 calls of
            (results, s2) \<Rightarrow> ((st, response) # results, s2)))"

text \<open>
  A serialisation for the concrete instances below: host and port, separated by a colon.
  The general theorems hold for every serialisation.
\<close>

definition host_port_string :: "NodeRegistration \<Rightarrow> string" where
  "host_port_string r = hostname r @ '':'' @ int_digits (control_port r)"

definition stub_built :: "string \<Rightarrow> Stub option" where
  "stub_built address = Some (Stub address)"

definition stub_failed :: "string \<Rightarrow> Stub option" where
  "stub_failed address = None"

text \<open>The alias of the node with a given id, and the id a call is about to hand out.\<close>

definition alias_name :: "nat \<Rightarrow> string" where
  "alias_name i = ''node'' @ int_digits (int i)"

definition planned_id :: "(NodeRegistration \<Rightarrow> string) \<Rightarrow> TestSequencer \<Rightarrow> NodeRegistration \<Rightarrow> int" where
  "planned_id D s r = (case fmlookup (node_id_map s) (D r) of Some known \<Rightarrow> known
                        | None \<Rightarrow> int (map_size (node_map s)))"

text \<open>The invariant of a registry on which no stub construction has failed.\<close>

definition registry_inv :: "TestSequencer \<Rightarrow> bool" where
  "registry_inv s \<longleftrightarrow>
     fmdom' (node_map s) = alias_name ` {..<map_size (node_map s)} \<and>
     fmran' (node_id_map s) = int ` {..<map_size (node_map s)} \<and>
     (\<forall>k k' v. fmlookup (node_id_map s) k = Some v \<longrightarrow> fmlookup (node_id_map s) k' = Some v \<longrightarrow> k = k')"

definition h1_registration :: NodeRegistration where
  "h1_registration = \<lparr>hostname = ''h1'', control_port = 7\<rparr>"

definition h2_registration :: NodeRegistration where
  "h2_registration = \<lparr>hostname = ''h2'', control_port = 7\<rparr>"

section \<open>Placement\<close>

text \<open>
  A test description: the services, each a type with a count, and the bundles that pin
  service instances to a node.  The bundles are a map of the message schema, whose
  iteration order is not fixed: the list gives the entries in the order the loop meets
  them.
\<close>

record ServiceSpec =
  server_type :: string
  count :: int

record DistributedSystemDescription =
  services :: "ServiceSpec list"
  node_service_bundles :: "(string \<times> string list) list"

type_synonym placement = "(string, string set) fmap"

text \<open>The expansion of the services into instance names \<open>type/i\<close>, for \<open>0 \<le> i < count\<close>.\<close>

definition service_instance :: "ServiceSpec \<Rightarrow> int \<Rightarrow> string" where
  "service_instance service_node i = server_type service_node @ ''/'' @ int_digits i"

definition expand_services :: "ServiceSpec list \<Rightarrow> string set \<Rightarrow> string set" where
  "expand_services svcs unplaced_services =
     fold (\<lambda>service_node acc.
             fold (\<lambda>i acc1. insert (service_instance service_node i) acc1)
                  [0..count service_node - 1] acc)
          svcs unplaced_services"

text \<open>
  The services of one bundle: each must still be unplaced, and moves to the set of the
  bundle's node.
\<close>

fun place_bundle ::
  "string \<Rightarrow> string list \<Rightarrow> string set \<times> placement \<Rightarrow> Status + (string set \<times> placement)" where
  "place_bundle alias [] (unplaced_services, node_service_map) =
     Inr (unplaced_services, node_service_map)"
| "place_bundle alias (service # rest) (unplaced_services, node_service_map) =
     (if service \<notin> unplaced_services then
        Inl (NotFoundError (''Service '' @ service @ '' was not found or already placed.''))
      else
        place_bundle alias rest
          (unplaced_services - {service},
           fmupd alias (insert service (map_at {} node_service_map alias)) node_service_map))"

text \<open>The bundles, one after the other: after its services, the node of a bundle is taken
  out of the pool.\<close>

fun place_bundles ::
  "(string \<times> string list) list \<Rightarrow> string set \<times> string set \<times> placement \<Rightarrow>
   Status + (string set \<times> string set \<times> placement)" where
  "place_bundles [] st = Inr st"
| "place_bundles ((alias, bundle) # rest) (unplaced_services, idle_nodes, node_service_map) =
     (case place_bundle alias bundle (unplaced_services, node_service_map) of
        Inl e \<Rightarrow> Inl e
      | Inr (unplaced1, nsm1) \<Rightarrow>
          if alias \<notin> idle_nodes then
            Inl (NotFoundError (''Node '' @ alias @ '' was not found or not idle.''))
          else place_bundles rest (unplaced1, idle_nodes - {alias}, nsm1))"

text \<open>
  The remaining services in the order of the set: each takes the first node of the pool,
  or is appended to the failure text when the pool is empty.
\<close>

fun auto_place ::
  "string list \<Rightarrow> string set \<times> placement \<times> string \<Rightarrow> string set \<times> placement \<times> string" where
  "auto_place [] st = st"
| "auto_place (service # rest) (idle_nodes, node_service_map, failures) =
     (if idle_nodes = {} then
        auto_place rest
          (idle_nodes, node_service_map,
           (if failures \<noteq> [] then failures @ '', '' else failures) @ service)
      else
        auto_place rest
          (idle_nodes - {Min idle_nodes},
           fmupd (Min idle_nodes)
             (insert service (map_at {} node_service_map (Min idle_nodes))) node_service_map,
           failures))"

text \<open>The nodes left in the pool get an entry, empty unless they have one.\<close>

definition add_idle_nodes :: "string list \<Rightarrow> placement \<Rightarrow> placement" where
  "add_idle_nodes nodes node_service_map =
     fold (\<lambda>idle_node m. fmupd idle_node (map_at {} m idle_node) m) nodes node_service_map"

text \<open>The entries of a \<open>std::map\<close> in iteration order, which is the order of the keys.\<close>

definition map_entries :: "('k::linorder, 'v) fmap \<Rightarrow> ('k \<times> 'v) list" where
  "map_entries m = map (\<lambda>k. (k, the (fmlookup m k))) (sorted_list_of_set (fmdom' m))"

text \<open>The pool of nodes a test starts from: the loop over the registry that fills
  \<open>idle_nodes\<close>.\<close>

definition snapshot_idle_nodes :: "TestSequencer \<Rightarrow> string set" where
  "snapshot_idle_nodes s = fold (\<lambda>node acc. insert (fst node) acc) (map_entries (node_map s)) {}"

text \<open>The first part of \<open>DoRunTest\<close>: validation and placement.\<close>

definition DoRunTest_placement ::
  "TestSequencer \<Rightarrow> DistributedSystemDescription \<Rightarrow> Status + placement" where
  "DoRunTest_placement s test =
     (if services test = [] then Inl (InvalidArgumentError ''No services defined.'')
      else
        let idle_nodes = snapshot_idle_nodes s;
            unplaced_services = expand_services (services test) {}
        in case place_bundles (node_service_bundles test) (unplaced_services, idle_nodes, fmempty) of
             Inl e \<Rightarrow> Inl e
           | Inr (unplaced1, idle1, nsm1) \<Rightarrow>
               (case auto_place (sorted_list_of_set unplaced1) (idle1, nsm1, []) of
                  (idle2, nsm2, failures) \<Rightarrow>
                    if failures \<noteq> [] then
                      Inl (NotFoundError (''No idle node for placement of services: '' @ failures))
                    else Inr (add_idle_nodes (sorted_list_of_set idle2) nsm2)))"

text \<open>Names joined by a comma and a space.\<close>

fun comma_separated :: "string list \<Rightarrow> string" where
  "comma_separated [] = []"
| "comma_separated [x] = x"
| "comma_separated (x # y # ys) = x @ '', '' @ comma_separated (y # ys)"

text \<open>All service instances a placement holds.\<close>

definition placed_services :: "placement \<Rightarrow> string set" where
  "placed_services node_service_map = \<Union> (fmran' node_service_map)"

text \<open>No service instance is held by two nodes.\<close>

definition disjoint_placement :: "placement \<Rightarrow> bool" where
  "disjoint_placement node_service_map \<longleftrightarrow>
     (\<forall>a b A B. a \<noteq> b \<longrightarrow> fmlookup node_service_map a = Some A \<longrightarrow>
        fmlookup node_service_map b = Some B \<longrightarrow> A \<inter> B = {})"

text \<open>The failure text as the loop builds it, one name after the other.\<close>

definition append_failure :: "string \<Rightarrow> string \<Rightarrow> string" where
  "append_failure service failures = (if failures \<noteq> [] then failures @ '', '' else failures) @ service"

text \<open>Registries and descriptions for the concrete instances.\<close>

definition two_nodes :: TestSequencer where
  "two_nodes = snd (RegisterNodes host_port_string initial_sequencer
     [(h1_registration, stub_built), (h2_registration, stub_built)])"

definition three_of_A :: DistributedSystemDescription where
  "three_of_A = \<lparr>services = [\<lparr>server_type = ''A'', count = 3\<rparr>], node_service_bundles = []\<rparr>"

definition two_of_A :: DistributedSystemDescription where
  "two_of_A = \<lparr>services = [\<lparr>server_type = ''A'', count = 2\<rparr>], node_service_bundles = []\<rparr>"

definition one_of_A_empty_bundle :: DistributedSystemDescription where
  "one_of_A_empty_bundle =
     \<lparr>services = [\<lparr>server_type = ''A'', count = 1\<rparr>], node_service_bundles = [(''node0'', [])]\<rparr>"

text \<open>The registry of two nodes after traffic has been started on the first: it is busy.\<close>

definition set_idle :: "bool \<Rightarrow> Node \<Rightarrow> Node" where
  "set_idle flag node = node\<lparr>idle := flag\<rparr>"

definition node0_busy :: TestSequencer where
  "node0_busy = two_nodes\<lparr>node_map :=
     fmupd ''node0'' (set_idle False (map_at default_Node (node_map two_nodes) ''node0''))
       (node_map two_nodes)\<rparr>"

definition A_service :: "int \<Rightarrow> ServiceSpec" where
  "A_service n = \<lparr>server_type = ''A'', count = n\<rparr>"

definition two_of_A_one_pinned :: DistributedSystemDescription where
  "two_of_A_one_pinned =
     \<lparr>services = [A_service 2], node_service_bundles = [(''node1'', [''A/1''])]\<rparr>"

definition one_of_A :: DistributedSystemDescription where
  "one_of_A = \<lparr>services = [A_service 1], node_service_bundles = []\<rparr>"

section \<open>Fan-out phases\<close>

text \<open>
  A call of the sequencer returns, or it dies on a failed \<open>QCHECK\<close> or a null stub, or
  it waits on its completion queue for ever.
\<close>

datatype 'a outcome = Returned 'a | Crashed | Blocked

definition and_then :: "'a outcome \<Rightarrow> ('a \<Rightarrow> 'b outcome) \<Rightarrow> 'b outcome" where
  "and_then x f = (case x of Returned v \<Rightarrow> f v | Crashed \<Rightarrow> Crashed | Blocked \<Rightarrow> Blocked)"

text \<open>
  Modelled from the spec: \<open>ServiceEndpointMap\<close> and \<open>ServiceLogs\<close> are messages of the
  schema, which is not part of the sources at hand.  Both are maps keyed by service
  instance; \<open>MergeFrom\<close> takes the union of the keys, the merged-in entry replacing one
  that is there.
\<close>

type_synonym ServiceEndpointMap = "(string, string) fmap"

type_synonym ServiceLogs = "(string, string) fmap"

definition MergeFrom :: "('k, 'v) fmap \<Rightarrow> ('k, 'v) fmap \<Rightarrow> ('k, 'v) fmap" where
  "MergeFrom ret response = ret ++\<^sub>f response"

record TestResult =
  traffic_config :: DistributedSystemDescription
  placement :: ServiceEndpointMap
  service_logs :: ServiceLogs

text \<open>
  The state of a call in flight, as the transport has filled it in when the call
  completes: the status and the response, and for the phases that touch the idle flag
  the node the call went to (a pointer to the entry of the registry, here its key).
\<close>

record 'r PendingRpc =
  rpc_status :: Status
  rpc_response :: 'r

record 'r NodePendingRpc = "'r PendingRpc" +
  rpc_node :: string

text \<open>
  A completion queue: what successive calls of \<open>Next\<close> deliver, the flag \<open>ok\<close> and the
  pending call the tag points to.  The list ends where the queue delivers nothing more.
\<close>

type_synonym 'p completion_queue = "(bool \<times> 'p) list"

text \<open>
  The loop that issues one call per node of the placement, in the order of the keys:
  the node must be registered (\<open>QCHECK\<close>) and its stub must not be null; \<open>prepare\<close> is
  what the phase writes to the node before the call, \<open>call\<close> the call it issues.
\<close>

fun issue_rpcs ::
  "(string \<Rightarrow> RpcCall) \<Rightarrow> (Node \<Rightarrow> Node) \<Rightarrow> string list \<Rightarrow> TestSequencer \<times> nat \<Rightarrow>
   (TestSequencer \<times> nat) option" where
  "issue_rpcs call prepare [] st = Some st"
| "issue_rpcs call prepare (target # rest) (s, rpc_count) =
     (case fmlookup (node_map s) target of
        None \<Rightarrow> None
      | Some found \<Rightarrow>
          (case stub found of
             None \<Rightarrow> None
           | Some node_stub \<Rightarrow>
               issue_rpcs call prepare rest
                 (s\<lparr>node_map := fmupd target (prepare found) (node_map s),
                    issued_rpcs := issued_rpcs s @ [call target]\<rparr>,
                  Suc rpc_count)))"

text \<open>
  The loop that waits for the calls: while \<open>rpc_count\<close> is not zero it takes the next
  event of the queue, and on an event whose flag is set it counts the call as done and
  runs the body \<open>finished\<close> of the phase on it.  It returns the state and the rest of the
  queue; on a queue that delivers too few events it does not return.
\<close>

fun drain ::
  "('st \<Rightarrow> 'p \<Rightarrow> 'st) \<Rightarrow> nat \<Rightarrow> 'p completion_queue \<Rightarrow> 'st \<Rightarrow> ('st \<times> 'p completion_queue) option" where
  "drain finished 0 cq st = Some (st, cq)"
| "drain finished (Suc rpc_count) [] st = None"
| "drain finished (Suc rpc_count) ((next_ok, finished_rpc) # cq) st =
     (if next_ok then drain finished rpc_count cq (finished st finished_rpc)
      else drain finished (Suc rpc_count) cq st)"

text \<open>The status variable of a phase: overwritten by every status that is not OK.\<close>

definition keep_failure :: "Status \<Rightarrow> Status \<Rightarrow> Status" where
  "keep_failure status0 finished_status = (if \<not> ok finished_status then finished_status else status0)"

text \<open>\<open>ConfigureNodes\<close>: the request to a node lists the services placed on it, in the
  order of the set (it also carries the description).\<close>

definition ConfigureNodes_finished ::
  "Status \<times> ServiceEndpointMap \<Rightarrow> ServiceEndpointMap PendingRpc \<Rightarrow> Status \<times> ServiceEndpointMap" where
  "ConfigureNodes_finished st finished_rpc =
     (keep_failure (fst st) (rpc_status finished_rpc), MergeFrom (snd st) (rpc_response finished_rpc))"

definition ConfigureNodes ::
  "TestSequencer \<Rightarrow> placement \<Rightarrow> DistributedSystemDescription \<Rightarrow>
   ServiceEndpointMap PendingRpc completion_queue \<Rightarrow>
   ((Status + ServiceEndpointMap) \<times> TestSequencer) outcome" where
  "ConfigureNodes s node_service_map test cq =
     (case issue_rpcs
             (\<lambda>target. ConfigureNodeRpc target (sorted_list_of_set (map_at {} node_service_map target)))
             id (sorted_list_of_set (fmdom' node_service_map)) (s, 0) of
        None \<Rightarrow> Crashed
      | Some (s1, rpc_count) \<Rightarrow>
          (case drain ConfigureNodes_finished rpc_count cq (OkStatus, fmempty) of
             None \<Rightarrow> Blocked
           | Some (st, cq1) \<Rightarrow>
               Returned (if ok (fst st) then Inr (snd st)
                         else Inl (InvalidArgumentError ''Unknown GRPC error2''), s1)))"

text \<open>\<open>IntroducePeers\<close>: the request is the merged endpoint map; there is no accumulator.\<close>

definition IntroducePeers_finished :: "Status \<Rightarrow> unit PendingRpc \<Rightarrow> Status" where
  "IntroducePeers_finished st finished_rpc = keep_failure st (rpc_status finished_rpc)"

definition IntroducePeers ::
  "TestSequencer \<Rightarrow> placement \<Rightarrow> ServiceEndpointMap \<Rightarrow> unit PendingRpc completion_queue \<Rightarrow>
   (Status \<times> TestSequencer) outcome" where
  "IntroducePeers s node_service_map service_map cq =
     (case issue_rpcs IntroducePeersRpc id (sorted_list_of_set (fmdom' node_service_map)) (s, 0) of
        None \<Rightarrow> Crashed
      | Some (s1, rpc_count) \<Rightarrow>
          (case drain IntroducePeers_finished rpc_count cq OkStatus of
             None \<Rightarrow> Blocked
           | Some (st, cq1) \<Rightarrow>
               Returned (if ok st then OkStatus
                         else InvalidArgumentError ''Unknown GRPC error'', s1)))"

text \<open>
  \<open>RunTraffic\<close>: the node is marked busy before its call is issued, and marked idle
  again when its call has completed, whatever the status.
\<close>

definition mark_idle :: "string \<Rightarrow> TestSequencer \<Rightarrow> TestSequencer" where
  "mark_idle target s =
     (case fmlookup (node_map s) target of
        None \<Rightarrow> s
      | Some found \<Rightarrow> s\<lparr>node_map := fmupd target (set_idle True found) (node_map s)\<rparr>)"

definition RunTraffic_finished ::
  "Status \<times> ServiceLogs \<times> TestSequencer \<Rightarrow> ServiceLogs NodePendingRpc \<Rightarrow>
   Status \<times> ServiceLogs \<times> TestSequencer" where
  "RunTraffic_finished st finished_rpc =
     (keep_failure (fst st) (rpc_status finished_rpc),
      MergeFrom (fst (snd st)) (rpc_response finished_rpc),
      mark_idle (rpc_node finished_rpc) (snd (snd st)))"

definition RunTraffic ::
  "TestSequencer \<Rightarrow> placement \<Rightarrow> ServiceLogs NodePendingRpc completion_queue \<Rightarrow>
   ((Status + ServiceLogs) \<times> TestSequencer) outcome" where
  "RunTraffic s node_service_map cq =
     (case issue_rpcs RunTrafficRpc (set_idle False)
             (sorted_list_of_set (fmdom' node_service_map)) (s, 0) of
        None \<Rightarrow> Crashed
      | Some (s1, rpc_count) \<Rightarrow>
          (case drain RunTraffic_finished rpc_count cq (OkStatus, fmempty, s1) of
             None \<Rightarrow> Blocked
           | Some (st, cq1) \<Rightarrow>
               Returned (if ok (fst st) then Inr (fst (snd st))
                         else Inl (InvalidArgumentError ''Unknown GRPC error2''),
                         snd (snd st))))"

section \<open>Running a test and a sequence of tests\<close>

text \<open>What the workers and the transport do during one test: the events of the
  completion queue of each phase.\<close>

record TestEnv =
  configure_cq :: "ServiceEndpointMap PendingRpc completion_queue"
  introduce_cq :: "unit PendingRpc completion_queue"
  traffic_cq :: "ServiceLogs NodePendingRpc completion_queue"

definition DoRunTest ::
  "TestSequencer \<Rightarrow> DistributedSystemDescription \<Rightarrow> TestEnv \<Rightarrow>
   ((Status + TestResult) \<times> TestSequencer) outcome" where
  "DoRunTest s test env =
     (case DoRunTest_placement s test of
        Inl e \<Rightarrow> Returned (Inl e, s)
      | Inr node_service_map \<Rightarrow>
          and_then (ConfigureNodes s node_service_map test (configure_cq env)) (\<lambda>(cret, s1).
            case cret of
              Inl e \<Rightarrow> Returned (Inl e, s1)
            | Inr service_map \<Rightarrow>
                and_then (IntroducePeers s1 node_service_map service_map (introduce_cq env)) (\<lambda>(ipret, s2).
                  if \<not> ok ipret then Returned (Inl ipret, s2)
                  else
                    and_then (RunTraffic s2 node_service_map (traffic_cq env)) (\<lambda>(maybe_logs, s3).
                      case maybe_logs of
                        Inr logs \<Rightarrow>
                          Returned (Inr \<lparr>traffic_config = test, placement = service_map,
                                          service_logs = logs\<rparr>, s3)
                      | Inl e \<Rightarrow> Returned (Inl e, s3)))))"

text \<open>
  \<open>DoRunTestSequence\<close>: each test comes with what \<open>IsCancelled\<close> answers before it and
  with its environment; the results are appended to the response.
\<close>

fun DoRunTestSequence ::
  "TestSequencer \<Rightarrow> (DistributedSystemDescription \<times> bool \<times> TestEnv) list \<Rightarrow> TestResult list \<Rightarrow>
   (Status \<times> TestResult list \<times> TestSequencer) outcome" where
  "DoRunTestSequence s [] test_results = Returned (OkStatus, test_results, s)"
| "DoRunTestSequence s ((test, is_cancelled, env) # rest) test_results =
     (if is_cancelled then
        Returned (\<lparr>error_code = ABORTED, error_message = ''Cancelled by new test sequence.''\<rparr>,
                  test_results, s)
      else
        and_then (DoRunTest s test env) (\<lambda>(maybe_result, s1).
          case maybe_result of
            Inr result \<Rightarrow> DoRunTestSequence s1 rest (test_results @ [result])
          | Inl e \<Rightarrow>
              Returned (\<lparr>error_code = ABORTED, error_message = error_message e\<rparr>,
                        test_results, s1)))"

text \<open>The calls a phase has completed when it returns: the first \<open>n\<close> events whose flag
  is set.\<close>

definition completed :: "nat \<Rightarrow> 'p completion_queue \<Rightarrow> 'p list" where
  "completed n cq = map snd (take n (filter fst cq))"

text \<open>Every node a phase turns to is registered and has a stub.\<close>

definition targets_ready :: "TestSequencer \<Rightarrow> placement \<Rightarrow> bool" where
  "targets_ready s node_service_map \<longleftrightarrow>
     (\<forall>target \<in> fmdom' node_service_map.
        case fmlookup (node_map s) target of None \<Rightarrow> False | Some found \<Rightarrow> stub found \<noteq> None)"

text \<open>The last status of a list that is not OK, and OK when there is none.\<close>

definition last_failure :: "Status list \<Rightarrow> Status" where
  "last_failure statuses =
     (if filter (\<lambda>x. \<not> ok x) statuses = [] then OkStatus else last (filter (\<lambda>x. \<not> ok x) statuses))"

text \<open>The calls the phases issue for a placement.\<close>

definition configure_calls :: "placement \<Rightarrow> RpcCall list" where
  "configure_calls node_service_map =
     map (\<lambda>target. ConfigureNodeRpc target (sorted_list_of_set (map_at {} node_service_map target)))
       (sorted_list_of_set (fmdom' node_service_map))"

definition introduce_calls :: "placement \<Rightarrow> RpcCall list" where
  "introduce_calls node_service_map = map IntroducePeersRpc (sorted_list_of_set (fmdom' node_service_map))"

definition traffic_calls :: "placement \<Rightarrow> RpcCall list" where
  "traffic_calls node_service_map = map RunTrafficRpc (sorted_list_of_set (fmdom' node_service_map))"

text \<open>The result of a call without the state it leaves.\<close>

definition result_of :: "('a \<times> TestSequencer) outcome \<Rightarrow> 'a outcome" where
  "result_of x = and_then x (\<lambda>r. Returned (fst r))"

text \<open>The calls a sequencer has issued when a call has returned.\<close>

definition calls_after :: "('a \<times> TestSequencer) outcome \<Rightarrow> RpcCall list outcome" where
  "calls_after x = and_then x (\<lambda>r. Returned (issued_rpcs (snd r)))"

text \<open>Completion queues and a placement for the concrete instances.\<close>

definition placement_two_of_A :: placement where
  "placement_two_of_A = fmupd ''node0'' {''A/0''} (fmupd ''node1'' {''A/1''} fmempty)"

definition answer :: "StatusCode \<Rightarrow> string \<Rightarrow> 'r \<Rightarrow> 'r PendingRpc" where
  "answer c msg r = \<lparr>rpc_status = \<lparr>error_code = c, error_message = msg\<rparr>, rpc_response = r\<rparr>"

definition node_answer :: "string \<Rightarrow> StatusCode \<Rightarrow> string \<Rightarrow> 'r \<Rightarrow> 'r NodePendingRpc" where
  "node_answer target c msg r =
     \<lparr>rpc_status = \<lparr>error_code = c, error_message = msg\<rparr>, rpc_response = r, rpc_node = target\<rparr>"

definition two_failures :: "ServiceEndpointMap PendingRpc completion_queue" where
  "two_failures = [(True, answer UNKNOWN ''first'' fmempty), (True, answer NOT_FOUND ''second'' fmempty)]"

definition one_failure :: "ServiceEndpointMap PendingRpc completion_queue" where
  "one_failure = [(True, answer OK [] fmempty), (True, answer UNKNOWN ''worker failed'' fmempty)]"

definition two_acks :: "unit PendingRpc completion_queue" where
  "two_acks = [(True, answer OK [] ()), (True, answer OK [] ())]"

definition traffic_one_failure :: "ServiceLogs NodePendingRpc completion_queue" where
  "traffic_one_failure =
     [(True, node_answer ''node1'' UNKNOWN ''worker failed'' fmempty),
      (True, node_answer ''node0'' OK [] fmempty)]"

text \<open>Every registered node has a stub: what \<open>RegisterNode\<close> maintains.\<close>

definition all_stubs_built :: "TestSequencer \<Rightarrow> bool" where
  "all_stubs_built s \<longleftrightarrow>
     (\<forall>target \<in> fmdom' (node_map s).
        case fmlookup (node_map s) target of None \<Rightarrow> False | Some found \<Rightarrow> stub found \<noteq> None)"

definition configure_fails :: TestEnv where
  "configure_fails = \<lparr>configure_cq = one_failure, introduce_cq = two_acks, traffic_cq = traffic_one_failure\<rparr>"

fun is_configure_call :: "RpcCall \<Rightarrow> bool" where
  "is_configure_call (ConfigureNodeRpc target svcs) = True"
| "is_configure_call other = False"

section \<open>Registration: proofs\<close>
lemma digit_char_inj: "a < 10 \<Longrightarrow> b < 10 \<Longrightarrow> digit_char a = digit_char b \<Longrightarrow> a = b"
proof -
  assume a: "a < 10" and b: "b < 10" and e: "digit_char a = digit_char b"
  have A: "a \<in> {0,1,2,3,4,5,6,7,8,9}" using a by auto
  have B: "b \<in> {0,1,2,3,4,5,6,7,8,9}" using b by auto
  show ?thesis using A B e by (auto simp: digit_char_def)
qed

lemma nat_digits_nonempty: "nat_digits n \<noteq> []"
  by (subst nat_digits.simps) simp

lemma nat_digits_inj: "nat_digits a = nat_digits b \<Longrightarrow> a = b"
proof (induction a arbitrary: b rule: nat_digits.induct)
  case (1 n)
  show ?case
  proof (cases "n < 10")
    case True
    then have n: "nat_digits n = [digit_char n]" by (subst nat_digits.simps) simp
    show ?thesis
    proof (cases "b < 10")
      case True
      then have "nat_digits b = [digit_char b]" by (subst nat_digits.simps) simp
      with n "1.prems" \<open>n < 10\<close> True show ?thesis by (simp add: digit_char_inj)
    next
      case False
      then have "nat_digits b = nat_digits (b div 10) @ [digit_char (b mod 10)]"
        by (subst nat_digits.simps) simp
      with n "1.prems" show ?thesis by (simp add: nat_digits_nonempty)
    qed
  next
    case False
    then have n: "nat_digits n = nat_digits (n div 10) @ [digit_char (n mod 10)]"
      by (subst nat_digits.simps) simp
    show ?thesis
    proof (cases "b < 10")
      case True
      then have "nat_digits b = [digit_char b]" by (subst nat_digits.simps) simp
      with n "1.prems" nat_digits_nonempty [of "n div 10"] show ?thesis by simp
    next
      case bf: False
      then have "nat_digits b = nat_digits (b div 10) @ [digit_char (b mod 10)]"
        by (subst nat_digits.simps) simp
      with n "1.prems" have e: "nat_digits (n div 10) = nat_digits (b div 10)"
        and d: "digit_char (n mod 10) = digit_char (b mod 10)" by simp_all
      from "1.IH" [OF False e] have q: "n div 10 = b div 10" .
      from d have r: "n mod 10 = b mod 10" by (simp add: digit_char_inj)
      from q r show ?thesis by (metis div_mult_mod_eq)
    qed
  qed
qed

lemma int_digits_int: "int_digits (int n) = nat_digits n"
  by (simp add: int_digits_def)

lemma RegisterNode_ok:
  assumes "RegisterNode D N s r resp = (st, c, s')" and "ok st"
  shows "node_id c = planned_id D s r"
    and "node_alias c = ''node'' @ int_digits (planned_id D s r)"
    and "node_id_map s' = (case fmlookup (node_id_map s) (D r) of Some known \<Rightarrow> node_id_map s
                         | None \<Rightarrow> fmupd (D r) (planned_id D s r) (node_id_map s))"
    and "fmdom' (node_map s') = insert (node_alias c) (fmdom' (node_map s))"
  using assms
  by (auto simp: RegisterNode_def Let_def ok_def OkStatus_def planned_id_def
      split: if_splits option.splits)

lemma RegisterNode_ok_lookup:
  assumes "RegisterNode D N s r resp = (st, c, s')" and "ok st"
  shows "fmlookup (node_id_map s') (D r) = Some (node_id c)"
  using RegisterNode_ok(1,3) [OF assms]
  by (auto simp: planned_id_def split: option.splits)

lemma RegisterNode_id_map_mono:
  assumes "RegisterNode D N s r resp = (st, c, s')"
    and "fmlookup (node_id_map s) k = Some v"
  shows "fmlookup (node_id_map s') k = Some v"
  using assms
  by (auto simp: RegisterNode_def Let_def split: if_splits option.splits)

lemma registry_inv_initial: "registry_inv initial_sequencer"
  by (auto simp: registry_inv_def initial_sequencer_def map_size_def fmran'_def)

lemma alias_name_inj: "alias_name a = alias_name b \<Longrightarrow> a = b"
  by (simp add: alias_name_def int_digits_int nat_digits_inj)

lemma card_alias_image: "card (alias_name ` {..<n}) = n"
proof -
  have "inj_on alias_name {..<n}"
    by (rule inj_onI) (rule alias_name_inj)
  then show ?thesis by (simp add: card_image)
qed

lemma registry_inv_step:
  assumes inv: "registry_inv s"
    and run: "RegisterNode D N s r resp = (st, c, s')" and ok: "ok st"
  shows "registry_inv s'"
proof -
  let ?n = "map_size (node_map s)"
  note R = RegisterNode_ok [OF run ok]
  from inv have dom: "fmdom' (node_map s) = alias_name ` {..<?n}"
    and ran: "fmran' (node_id_map s) = int ` {..<?n}"
    and inj: "\<And>k k' v. fmlookup (node_id_map s) k = Some v \<Longrightarrow> fmlookup (node_id_map s) k' = Some v \<Longrightarrow> k = k'"
    by (auto simp: registry_inv_def)
  show ?thesis
  proof (cases "fmlookup (node_id_map s) (D r)")
    case (Some known)
    then have pid: "planned_id D s r = known" by (simp add: planned_id_def)
    from Some have "known \<in> fmran' (node_id_map s)" by (auto simp: fmran'_def)
    with ran obtain i where i: "known = int i" "i < ?n" by auto
    have al: "node_alias c = alias_name i"
      using R(2) pid i by (simp add: alias_name_def)
    have "node_alias c \<in> fmdom' (node_map s)" unfolding dom al using i(2) by blast
    with R(4) have d': "fmdom' (node_map s') = fmdom' (node_map s)" by auto
    have m': "node_id_map s' = node_id_map s" using R(3) Some by simp
    show ?thesis using inv unfolding registry_inv_def map_size_def d' m' .
  next
    case None
    then have pid: "planned_id D s r = int ?n" by (simp add: planned_id_def)
    have al: "node_alias c = alias_name ?n"
      using R(2) pid by (simp add: alias_name_def)
    have d': "fmdom' (node_map s') = alias_name ` {..<Suc ?n}"
      using R(4) al dom by (auto simp: lessThan_Suc)
    then have sz: "map_size (node_map s') = Suc ?n"
      by (simp add: map_size_def card_alias_image del: image_insert)
    have m': "node_id_map s' = fmupd (D r) (int ?n) (node_id_map s)"
      using R(3) None pid by simp
    have notin: "\<And>k. fmlookup (node_id_map s) k \<noteq> Some (int ?n)"
    proof
      fix k assume "fmlookup (node_id_map s) k = Some (int ?n)"
      then have "int ?n \<in> fmran' (node_id_map s)" by (auto simp: fmran'_def)
      with ran show False by auto
    qed
    have ran': "fmran' (node_id_map s') = int ` {..<Suc ?n}"
    proof -
      have "fmran' (node_id_map s') = insert (int ?n) (fmran' (node_id_map s))"
        unfolding m' using None by (auto simp: fmran'_def split: if_splits) (metis option.distinct(1))
      then show ?thesis using ran by (auto simp: lessThan_Suc)
    qed
    have inj': "\<forall>k k' v. fmlookup (node_id_map s') k = Some v \<longrightarrow> fmlookup (node_id_map s') k' = Some v \<longrightarrow> k = k'"
      unfolding m' using inj notin by (auto split: if_splits)
    show ?thesis unfolding registry_inv_def sz using d' ran' inj' by simp
  qed
qed

lemma RegisterNode_id_map_dom:
  assumes "RegisterNode D N s r resp = (st, c, s')" and "ok st"
  shows "fmdom' (node_id_map s') = insert (D r) (fmdom' (node_id_map s))"
  using RegisterNode_ok(3) [OF assms]
  by (auto split: option.splits simp: fmlookup_dom'_iff)

lemma RegisterNodes_all_ok:
  assumes "registry_inv s" and "RegisterNodes D s calls = (results, s')"
    and "\<forall>x \<in> set results. ok (fst x)"
  shows "registry_inv s' \<and> length results = length calls \<and>
         (\<forall>i < length calls.
            fmlookup (node_id_map s') (D (fst (calls ! i))) = Some (node_id (snd (results ! i))) \<and>
            node_alias (snd (results ! i)) = ''node'' @ int_digits (node_id (snd (results ! i)))) \<and>
         (\<forall>k v. fmlookup (node_id_map s) k = Some v \<longrightarrow> fmlookup (node_id_map s') k = Some v) \<and>
         fmdom' (node_id_map s') = fmdom' (node_id_map s) \<union> D ` fst ` set calls"
  using assms
proof (induction calls arbitrary: s results s')
  case Nil
  then show ?case by simp
next
  case (Cons call calls)
  obtain request NewStub where call: "call = (request, NewStub)" by (cases call)
  obtain st c s1 where one: "RegisterNode D NewStub s request fresh_NodeConfig = (st, c, s1)"
    by (cases "RegisterNode D NewStub s request fresh_NodeConfig")
  obtain rs s2 where rest: "RegisterNodes D s1 calls = (rs, s2)"
    by (cases "RegisterNodes D s1 calls")
  from Cons.prems(2) call one rest have res: "results = (st, c) # rs" and s': "s' = s2"
    by simp_all
  from Cons.prems(3) res have okst: "ok st" and okrs: "\<forall>x \<in> set rs. ok (fst x)" by simp_all
  have inv1: "registry_inv s1" by (rule registry_inv_step [OF Cons.prems(1) one okst])
  note IH = Cons.IH [OF inv1 rest okrs]
  from IH have inv2: "registry_inv s2" and len: "length rs = length calls"
    and tail: "\<And>i. i < length calls \<Longrightarrow>
            fmlookup (node_id_map s2) (D (fst (calls ! i))) = Some (node_id (snd (rs ! i))) \<and>
            node_alias (snd (rs ! i)) = ''node'' @ int_digits (node_id (snd (rs ! i)))"
    and mono: "\<And>k v. fmlookup (node_id_map s1) k = Some v \<Longrightarrow> fmlookup (node_id_map s2) k = Some v"
    and dom2: "fmdom' (node_id_map s2) = fmdom' (node_id_map s1) \<union> D ` fst ` set calls"
    by blast+
  have head: "fmlookup (node_id_map s2) (D request) = Some (node_id c)"
    by (rule mono [OF RegisterNode_ok_lookup [OF one okst]])
  have head_alias: "node_alias c = ''node'' @ int_digits (node_id c)"
    using RegisterNode_ok(1,2) [OF one okst] by simp
  have all: "\<forall>i < length (call # calls).
            fmlookup (node_id_map s') (D (fst ((call # calls) ! i))) = Some (node_id (snd (results ! i))) \<and>
            node_alias (snd (results ! i)) = ''node'' @ int_digits (node_id (snd (results ! i)))"
  proof (intro allI impI)
    fix i assume "i < length (call # calls)"
    then show "fmlookup (node_id_map s') (D (fst ((call # calls) ! i))) = Some (node_id (snd (results ! i))) \<and>
            node_alias (snd (results ! i)) = ''node'' @ int_digits (node_id (snd (results ! i)))"
      using head head_alias tail [of "i - 1"] unfolding res s' call
      by (cases i) simp_all
  qed
  have mono': "\<forall>k v. fmlookup (node_id_map s) k = Some v \<longrightarrow> fmlookup (node_id_map s') k = Some v"
    unfolding s' using mono RegisterNode_id_map_mono [OF one] by blast
  have dom': "fmdom' (node_id_map s') = fmdom' (node_id_map s) \<union> D ` fst ` set (call # calls)"
    unfolding s' dom2 RegisterNode_id_map_dom [OF one okst] call by auto
  show ?case using inv2 len all mono' dom' unfolding res s' by simp
qed

lemma registry_inv_sizes:
  assumes "registry_inv s"
  shows "map_size (node_map s) = card (fmdom' (node_id_map s))"
proof -
  let ?n = "map_size (node_map s)"
  let ?f = "\<lambda>k. the (fmlookup (node_id_map s) k)"
  from assms have ran: "fmran' (node_id_map s) = int ` {..<?n}"
    and inj: "\<And>k k' v. fmlookup (node_id_map s) k = Some v \<Longrightarrow> fmlookup (node_id_map s) k' = Some v \<Longrightarrow> k = k'"
    by (auto simp: registry_inv_def)
  have img: "?f ` fmdom' (node_id_map s) = fmran' (node_id_map s)"
  proof (intro set_eqI iffI)
    fix v assume "v \<in> ?f ` fmdom' (node_id_map s)"
    then show "v \<in> fmran' (node_id_map s)" by (auto simp: fmran'_def fmlookup_dom'_iff)
  next
    fix v assume "v \<in> fmran' (node_id_map s)"
    then obtain k where k: "fmlookup (node_id_map s) k = Some v" by (auto simp: fmran'_def)
    then have "k \<in> fmdom' (node_id_map s)" and "?f k = v" by (auto simp: fmlookup_dom'_iff)
    then show "v \<in> ?f ` fmdom' (node_id_map s)" by blast
  qed
  have "inj_on ?f (fmdom' (node_id_map s))"
    by (rule inj_onI) (auto simp: fmlookup_dom'_iff intro: inj)
  then have "card (fmdom' (node_id_map s)) = card (fmran' (node_id_map s))"
    unfolding img [symmetric] by (simp add: card_image)
  also have "\<dots> = ?n" unfolding ran by (simp add: card_image)
  finally show ?thesis by simp
qed

lemma int_digits_nonneg_inj:
  "0 \<le> a \<Longrightarrow> 0 \<le> b \<Longrightarrow> int_digits a = int_digits b \<Longrightarrow> a = b"
  using nat_digits_inj [of "nat a" "nat b"] by (simp add: int_digits_def)

lemma registry_inv_id_nonneg:
  "registry_inv s \<Longrightarrow> fmlookup (node_id_map s) k = Some v \<Longrightarrow> 0 \<le> v"
proof -
  assume a: "registry_inv s" "fmlookup (node_id_map s) k = Some v"
  then have "v \<in> fmran' (node_id_map s)" by (auto simp: fmran'_def)
  with a(1) show ?thesis by (auto simp: registry_inv_def)
qed

text \<open>
  Claim C4.  In a run of registrations from the empty registry in which every call
  returns OK, two calls whose payloads serialise differently get different ids and
  different aliases, two calls with the same payload get the same id and alias, and the
  registry ends with exactly one node per distinct payload, so that a repeated
  registration has used up no id.
\<close>

theorem RegisterNode_unique_ids:
  assumes run: "RegisterNodes DebugString initial_sequencer calls = (results, s)"
    and allok: "\<forall>x \<in> set results. ok (fst x)"
  shows "(\<forall>i < length calls. \<forall>j < length calls.
           (DebugString (fst (calls ! i)) \<noteq> DebugString (fst (calls ! j)) \<longrightarrow>
              node_id (snd (results ! i)) \<noteq> node_id (snd (results ! j)) \<and>
              node_alias (snd (results ! i)) \<noteq> node_alias (snd (results ! j))) \<and>
           (DebugString (fst (calls ! i)) = DebugString (fst (calls ! j)) \<longrightarrow>
              node_id (snd (results ! i)) = node_id (snd (results ! j)) \<and>
              node_alias (snd (results ! i)) = node_alias (snd (results ! j)))) \<and>
         map_size (node_map s) = card (DebugString ` fst ` set calls)"
proof -
  note A = RegisterNodes_all_ok [OF registry_inv_initial run allok]
  from A have inv: "registry_inv s"
    and look: "\<And>i. i < length calls \<Longrightarrow>
            fmlookup (node_id_map s) (DebugString (fst (calls ! i))) = Some (node_id (snd (results ! i)))"
    and al: "\<And>i. i < length calls \<Longrightarrow>
            node_alias (snd (results ! i)) = ''node'' @ int_digits (node_id (snd (results ! i)))"
    and dom: "fmdom' (node_id_map s) = fmdom' (node_id_map initial_sequencer) \<union> DebugString ` fst ` set calls"
    by blast+
  from inv have inj: "\<And>k k' v. fmlookup (node_id_map s) k = Some v \<Longrightarrow> fmlookup (node_id_map s) k' = Some v \<Longrightarrow> k = k'"
    by (auto simp: registry_inv_def)
  have pair: "\<forall>i < length calls. \<forall>j < length calls.
           (DebugString (fst (calls ! i)) \<noteq> DebugString (fst (calls ! j)) \<longrightarrow>
              node_id (snd (results ! i)) \<noteq> node_id (snd (results ! j)) \<and>
              node_alias (snd (results ! i)) \<noteq> node_alias (snd (results ! j))) \<and>
           (DebugString (fst (calls ! i)) = DebugString (fst (calls ! j)) \<longrightarrow>
              node_id (snd (results ! i)) = node_id (snd (results ! j)) \<and>
              node_alias (snd (results ! i)) = node_alias (snd (results ! j)))"
  proof (intro allI impI)
    fix i j assume i: "i < length calls" and j: "j < length calls"
    let ?ki = "DebugString (fst (calls ! i))" and ?kj = "DebugString (fst (calls ! j))"
    let ?vi = "node_id (snd (results ! i))" and ?vj = "node_id (snd (results ! j))"
    have li: "fmlookup (node_id_map s) ?ki = Some ?vi" by (rule look [OF i])
    have lj: "fmlookup (node_id_map s) ?kj = Some ?vj" by (rule look [OF j])
    have pi: "0 \<le> ?vi" by (rule registry_inv_id_nonneg [OF inv li])
    have pj: "0 \<le> ?vj" by (rule registry_inv_id_nonneg [OF inv lj])
    have ne: "?ki \<noteq> ?kj \<Longrightarrow> ?vi \<noteq> ?vj" using inj li lj by metis
    have nea: "?vi \<noteq> ?vj \<Longrightarrow> node_alias (snd (results ! i)) \<noteq> node_alias (snd (results ! j))"
      unfolding al [OF i] al [OF j] using int_digits_nonneg_inj [OF pi pj] by auto
    have eq: "?ki = ?kj \<Longrightarrow> ?vi = ?vj" using li lj by simp
    show "(?ki \<noteq> ?kj \<longrightarrow> ?vi \<noteq> ?vj \<and>
              node_alias (snd (results ! i)) \<noteq> node_alias (snd (results ! j))) \<and>
          (?ki = ?kj \<longrightarrow> ?vi = ?vj \<and>
              node_alias (snd (results ! i)) = node_alias (snd (results ! j)))"
      using ne nea eq al [OF i] al [OF j] by auto
  qed
  have "map_size (node_map s) = card (DebugString ` fst ` set calls)"
    using registry_inv_sizes [OF inv] dom by (simp add: initial_sequencer_def)
  with pair show ?thesis by blast
qed

theorem RegisterNode_unique_ids_witness:
  "map (\<lambda>x. error_code (fst x)) (fst (RegisterNodes host_port_string initial_sequencer
        [(h1_registration, stub_built), (h2_registration, stub_built), (h1_registration, stub_built)]))
     = [OK, OK, OK] \<and>
   map (\<lambda>x. node_alias (snd x)) (fst (RegisterNodes host_port_string initial_sequencer
        [(h1_registration, stub_built), (h2_registration, stub_built), (h1_registration, stub_built)]))
     = [''node0'', ''node1'', ''node0''] \<and>
   map_size (node_map (snd (RegisterNodes host_port_string initial_sequencer
        [(h1_registration, stub_built), (h2_registration, stub_built), (h1_registration, stub_built)])))
     = card (host_port_string ` fst ` set
        [(h1_registration, stub_built), (h2_registration, stub_built), (h1_registration, stub_built)])"
proof -
  let ?calls = "[(h1_registration, stub_built), (h2_registration, stub_built), (h1_registration, stub_built)]"
  let ?run = "RegisterNodes host_port_string initial_sequencer ?calls"
  have run: "?run = (fst ?run, snd ?run)" by simp
  have codes: "map (\<lambda>x. error_code (fst x)) (fst ?run) = [OK, OK, OK]" by code_simp
  have allok: "\<forall>x \<in> set (fst ?run). ok (fst x)"
  proof
    fix x assume "x \<in> set (fst ?run)"
    then have "error_code (fst x) \<in> set (map (\<lambda>x. error_code (fst x)) (fst ?run))" by simp
    show "ok (fst x)"
      using \<open>error_code (fst x) \<in> set (map (\<lambda>x. error_code (fst x)) (fst ?run))\<close>
      unfolding codes by (simp add: ok_def)
  qed
  have aliases: "map (\<lambda>x. node_alias (snd x)) (fst ?run) = [''node0'', ''node1'', ''node0'']"
    by code_simp
  from RegisterNode_unique_ids [OF run allok] codes aliases show ?thesis by blast
qed

text \<open>
  Claim C5.  Registering a payload and then the identical payload again, both calls
  succeeding, returns the same id and alias both times and leaves the size of the
  registry as it was after the first call; when the first call is the first ever, the id
  is 0, the alias is \<open>node0\<close> and the size is 1.
\<close>

theorem RegisterNode_idempotent:
  assumes first: "RegisterNode DebugString NewStub1 s request response1 = (st1, c1, s1)"
    and second: "RegisterNode DebugString NewStub2 s1 request response2 = (st2, c2, s2)"
    and ok1: "ok st1" and ok2: "ok st2"
  shows "node_id c2 = node_id c1 \<and> node_alias c2 = node_alias c1 \<and>
         map_size (node_map s2) = map_size (node_map s1) \<and>
         (s = initial_sequencer \<longrightarrow>
            node_id c1 = 0 \<and> node_alias c1 = ''node0'' \<and> map_size (node_map s1) = 1)"
proof -
  note A = RegisterNode_ok [OF first ok1] and B = RegisterNode_ok [OF second ok2]
  have look: "fmlookup (node_id_map s1) (DebugString request) = Some (node_id c1)"
    by (rule RegisterNode_ok_lookup [OF first ok1])
  then have pid: "planned_id DebugString s1 request = node_id c1" by (simp add: planned_id_def)
  have id: "node_id c2 = node_id c1" using B(1) pid by simp
  have al: "node_alias c2 = node_alias c1" using B(2) A(1,2) pid by simp
  have "node_alias c1 \<in> fmdom' (node_map s1)" using A(4) by simp
  then have "fmdom' (node_map s2) = fmdom' (node_map s1)" using B(4) al by auto
  then have sz: "map_size (node_map s2) = map_size (node_map s1)" by (simp add: map_size_def)
  have init: "node_id c1 = 0 \<and> node_alias c1 = ''node0'' \<and> map_size (node_map s1) = 1"
    if "s = initial_sequencer"
  proof -
    have p0: "planned_id DebugString s request = 0"
      using that by (simp add: planned_id_def initial_sequencer_def map_size_def)
    have d0: "int_digits 0 = ''0''"
      by (simp add: int_digits_def nat_digits.simps digit_char_def)
    have "fmdom' (node_map s1) = {node_alias c1}"
      using A(4) that by (simp add: initial_sequencer_def)
    then show ?thesis using A(1,2) p0 d0 by (simp add: map_size_def)
  qed
  from id al sz init show ?thesis by blast
qed

theorem RegisterNode_idempotent_witness:
  "ok (fst (RegisterNode host_port_string stub_built initial_sequencer h1_registration fresh_NodeConfig)) \<and>
   ok (fst (RegisterNode host_port_string stub_built
         (snd (snd (RegisterNode host_port_string stub_built initial_sequencer h1_registration fresh_NodeConfig)))
         h1_registration fresh_NodeConfig)) \<and>
   fst (snd (RegisterNode host_port_string stub_built
         (snd (snd (RegisterNode host_port_string stub_built initial_sequencer h1_registration fresh_NodeConfig)))
         h1_registration fresh_NodeConfig)) = \<lparr>node_id = 0, node_alias = ''node0''\<rparr> \<and>
   map_size (node_map (snd (snd (RegisterNode host_port_string stub_built
         (snd (snd (RegisterNode host_port_string stub_built initial_sequencer h1_registration fresh_NodeConfig)))
         h1_registration fresh_NodeConfig)))) = 1"
proof -
  let ?one = "RegisterNode host_port_string stub_built initial_sequencer h1_registration fresh_NodeConfig"
  let ?two = "RegisterNode host_port_string stub_built (snd (snd ?one)) h1_registration fresh_NodeConfig"
  have first: "?one = (fst ?one, fst (snd ?one), snd (snd ?one))" by simp
  have second: "?two = (fst ?two, fst (snd ?two), snd (snd ?two))" by simp
  have ok1: "ok (fst ?one)" by code_simp
  have ok2: "ok (fst ?two)" by code_simp
  from RegisterNode_idempotent [OF first second ok1 ok2] ok1 ok2
  show ?thesis by (cases "fst (snd ?two)") auto
qed

text \<open>
  What a call does when the stub cannot be built: it returns UNKNOWN, leaves the response
  and the alias map alone, and has already written the id map when the payload is new.
\<close>

lemma RegisterNode_stub_failure:
  assumes "hostname request \<noteq> []" and "0 < control_port request"
    and "NewStub (''dns:///'' @ hostname request @ '':'' @ int_digits (control_port request)) = None"
    and "RegisterNode DebugString NewStub s request response = (st, c, s')"
  shows "error_code st = UNKNOWN \<and> c = response \<and> node_map s' = node_map s \<and>
         node_id_map s' = (case fmlookup (node_id_map s) (DebugString request) of
             Some known \<Rightarrow> node_id_map s
           | None \<Rightarrow> fmupd (DebugString request) (int (map_size (node_map s))) (node_id_map s))"
  using assms by (auto simp: RegisterNode_def Let_def split: option.splits)

text \<open>
  Claim C3.  On the empty registry, a call for host \<open>h1\<close>, port 7 whose stub
  construction fails returns UNKNOWN and leaves the alias map as it was, but the id map,
  which had no entry for the payload, maps it to 0 afterwards: the registry state is
  not what it was before the call.
\<close>

theorem RegisterNode_stub_failure_mutates_id_map:
  "error_code (fst (RegisterNode host_port_string stub_failed initial_sequencer h1_registration fresh_NodeConfig)) = UNKNOWN \<and>
   node_map (snd (snd (RegisterNode host_port_string stub_failed initial_sequencer h1_registration fresh_NodeConfig)))
     = node_map initial_sequencer \<and>
   fmlookup (node_id_map (snd (snd (RegisterNode host_port_string stub_failed initial_sequencer h1_registration fresh_NodeConfig))))
     (host_port_string h1_registration) = Some 0 \<and>
   fmlookup (node_id_map initial_sequencer) (host_port_string h1_registration) = None"
  by (simp add: RegisterNode_def Let_def stub_failed_def initial_sequencer_def h1_registration_def
      map_size_def)

text \<open>
  The consequence: after a failed stub construction for one registration, a second,
  different registration gets the id the first one holds, and both get alias \<open>node0\<close>.
\<close>

lemma RegisterNode_alias_collision_after_failure:
  "map (\<lambda>x. (error_code (fst x), node_alias (snd x)))
     (fst (RegisterNodes host_port_string initial_sequencer
        [(h1_registration, stub_failed), (h2_registration, stub_built), (h1_registration, stub_built)]))
   = [(UNKNOWN, []), (OK, ''node0''), (OK, ''node0'')]"
  by code_simp

section \<open>Placement: proofs\<close>

lemma map_at_simps [simp]:
  "fmlookup m k = None \<Longrightarrow> map_at d m k = d"
  "fmlookup m k = Some v \<Longrightarrow> map_at d m k = v"
  by (simp_all add: map_at_def)

lemma placed_services_iff:
  "x \<in> placed_services m \<longleftrightarrow> (\<exists>a A. fmlookup m a = Some A \<and> x \<in> A)"
  by (auto simp: placed_services_def fmran'_def)

lemma placed_services_lookup: "fmlookup m a = Some A \<Longrightarrow> A \<subseteq> placed_services m"
  unfolding placed_services_iff subset_iff by blast

lemma placed_services_empty [simp]: "placed_services fmempty = {}"
  by (auto simp: placed_services_iff)

lemma placed_services_grow:
  assumes "map_at {} m a \<subseteq> S"
  shows "placed_services (fmupd a S m) = placed_services m \<union> S"
proof (intro set_eqI iffI)
  fix x assume "x \<in> placed_services (fmupd a S m)"
  then show "x \<in> placed_services m \<union> S"
    by (auto simp: placed_services_iff split: if_splits)
next
  fix x assume x: "x \<in> placed_services m \<union> S"
  show "x \<in> placed_services (fmupd a S m)"
  proof (cases "x \<in> S")
    case True
    then show ?thesis unfolding placed_services_iff by (intro exI [of _ a] exI [of _ S]) simp
  next
    case False
    with x obtain b B where b: "fmlookup m b = Some B" "x \<in> B"
      by (auto simp: placed_services_iff)
    with False assms have "b \<noteq> a" by (auto simp: map_at_def)
    with b show ?thesis unfolding placed_services_iff
      by (intro exI [of _ b] exI [of _ B]) simp
  qed
qed

lemma disjoint_placement_empty [simp]: "disjoint_placement fmempty"
  by (simp add: disjoint_placement_def)

lemma disjoint_placementD:
  "disjoint_placement m \<Longrightarrow> a \<noteq> b \<Longrightarrow> fmlookup m a = Some A \<Longrightarrow>
   fmlookup m b = Some B \<Longrightarrow> A \<inter> B = {}"
  unfolding disjoint_placement_def by blast

lemma disjoint_placement_grow:
  assumes d: "disjoint_placement m" and new: "T \<inter> placed_services m = {}"
  shows "disjoint_placement (fmupd a (map_at {} m a \<union> T) m)"
  unfolding disjoint_placement_def
proof (intro allI impI)
  fix x y X Y
  assume ne: "x \<noteq> y"
    and X: "fmlookup (fmupd a (map_at {} m a \<union> T) m) x = Some X"
    and Y: "fmlookup (fmupd a (map_at {} m a \<union> T) m) y = Some Y"
  have other: "T \<inter> B = {}" if "fmlookup m b = Some B" for b B
  proof -
    have "B \<subseteq> placed_services m" using that by (rule placed_services_lookup)
    with new show ?thesis by auto
  qed
  have old: "map_at {} m a \<inter> B = {}" if "b \<noteq> a" "fmlookup m b = Some B" for b B
  proof (cases "fmlookup m a")
    case None
    then show ?thesis by simp
  next
    case (Some A)
    with disjoint_placementD [OF d _ Some that(2)] that(1) show ?thesis by auto
  qed
  show "X \<inter> Y = {}"
  proof (cases "x = a")
    case True
    with ne X Y have "X = map_at {} m a \<union> T" "fmlookup m y = Some Y" "y \<noteq> a" by auto
    with other [of y Y] old [of y Y] show ?thesis by auto
  next
    case xa: False
    show ?thesis
    proof (cases "y = a")
      case True
      with ne X Y have "Y = map_at {} m a \<union> T" "fmlookup m x = Some X" "x \<noteq> a" by auto
      with other [of x X] old [of x X] show ?thesis by auto
    next
      case False
      with xa X Y have "fmlookup m x = Some X" "fmlookup m y = Some Y" by auto
      with d ne show ?thesis by (blast dest: disjoint_placementD)
    qed
  qed
qed

lemma place_bundle_ok:
  assumes "place_bundle alias bundle (U, m) = Inr (U', m')"
  shows "distinct bundle \<and> set bundle \<subseteq> U \<and> U' = U - set bundle \<and>
         m' = (if bundle = [] then m else fmupd alias (map_at {} m alias \<union> set bundle) m)"
  using assms
proof (induction "bundle" arbitrary: U m)
  case Nil
  then show ?case by simp
next
  case (Cons service rest)
  let ?m1 = "fmupd alias (insert service (map_at {} m alias)) m"
  from Cons.prems have mem: "service \<in> U"
    and rec: "place_bundle alias rest (U - {service}, ?m1) = Inr (U', m')"
    by (auto split: if_splits)
  note IH = Cons.IH [OF rec]
  have at: "map_at {} ?m1 alias = insert service (map_at {} m alias)" by simp
  have "m' = fmupd alias (map_at {} m alias \<union> set (service # rest)) m"
  proof (cases "rest = []")
    case True
    with IH show ?thesis by simp
  next
    case False
    with IH have "m' = fmupd alias (map_at {} ?m1 alias \<union> set rest) ?m1" by simp
    moreover have "insert service (map_at {} m alias) \<union> set rest = map_at {} m alias \<union> set (service # rest)"
      by auto
    ultimately show ?thesis unfolding at by simp
  qed
  with IH mem show ?case by auto
qed

lemma place_bundle_effect:
  assumes run: "place_bundle alias svcs (U, m) = Inr (U', m')"
    and sep: "U \<inter> placed_services m = {}" and d: "disjoint_placement m"
  shows "U' \<inter> placed_services m' = {} \<and> U' \<union> placed_services m' = U \<union> placed_services m \<and>
         disjoint_placement m' \<and> U' \<subseteq> U \<and>
         fmdom' m' = fmdom' m \<union> (if svcs = [] then {} else {alias})"
proof -
  from place_bundle_ok [OF run] have sub: "set svcs \<subseteq> U" and U': "U' = U - set svcs"
    and m': "m' = (if svcs = [] then m else fmupd alias (map_at {} m alias \<union> set svcs) m)"
    by simp_all
  show ?thesis
  proof (cases "svcs = []")
    case True
    with U' m' sep d show ?thesis by simp
  next
    case False
    with m' have m'': "m' = fmupd alias (map_at {} m alias \<union> set svcs) m" by simp
    have pl: "placed_services m' = placed_services m \<union> (map_at {} m alias \<union> set svcs)"
      unfolding m'' by (rule placed_services_grow) simp
    have inn: "map_at {} m alias \<subseteq> placed_services m"
      by (cases "fmlookup m alias") (simp_all add: placed_services_lookup)
    have new: "set svcs \<inter> placed_services m = {}" using sub sep by auto
    have dj: "disjoint_placement m'" unfolding m'' by (rule disjoint_placement_grow [OF d new])
    have dom: "fmdom' m' = fmdom' m \<union> {alias}" unfolding m'' by simp
    from pl inn sub sep U' dj dom False show ?thesis by auto
  qed
qed

lemma place_bundles_effect:
  assumes "place_bundles bs (U, I, m) = Inr (U', I', m')"
    and "U \<inter> placed_services m = {}" and "disjoint_placement m"
  shows "U' \<inter> placed_services m' = {} \<and> U' \<union> placed_services m' = U \<union> placed_services m \<and>
         disjoint_placement m' \<and> U' \<subseteq> U \<and> I' = I - fst ` set bs \<and> fst ` set bs \<subseteq> I \<and>
         fmdom' m' = fmdom' m \<union> {a. \<exists>svcs. (a, svcs) \<in> set bs \<and> svcs \<noteq> []}"
  using assms
proof (induction bs arbitrary: U I m)
  case Nil
  then show ?case by simp
next
  case (Cons b bs)
  obtain al svcs where b: "b = (al, svcs)" by (cases b)
  from Cons.prems(1) b obtain U1 m1 where one: "place_bundle al svcs (U, m) = Inr (U1, m1)"
    and inI: "al \<in> I"
    and rest: "place_bundles bs (U1, I - {al}, m1) = Inr (U', I', m')"
    by (auto split: sum.splits if_splits)
  note E = place_bundle_effect [OF one Cons.prems(2,3)]
  from E have sep1: "U1 \<inter> placed_services m1 = {}" and d1: "disjoint_placement m1" by simp_all
  note IH = Cons.IH [OF rest sep1 d1]
  have dom: "fmdom' m' = fmdom' m \<union> {a. \<exists>svcs. (a, svcs) \<in> set (b # bs) \<and> svcs \<noteq> []}"
  proof -
    from IH have "fmdom' m' = fmdom' m1 \<union> {a. \<exists>svcs. (a, svcs) \<in> set bs \<and> svcs \<noteq> []}" by simp
    also from E have "fmdom' m1 = fmdom' m \<union> (if svcs = [] then {} else {al})" by simp
    finally show ?thesis unfolding b by auto
  qed
  from IH have 1: "U' \<inter> placed_services m' = {}" and 3: "disjoint_placement m'"
    and I': "I' = I - {al} - fst ` set bs" and sub: "fst ` set bs \<subseteq> I - {al}" by simp_all
  from IH E have 2: "U' \<union> placed_services m' = U \<union> placed_services m" by simp
  from IH have "U' \<subseteq> U1" by simp
  moreover from E have "U1 \<subseteq> U" by simp
  ultimately have 4: "U' \<subseteq> U" by (rule order_trans)
  from I' have 5: "I' = I - fst ` set (b # bs)" unfolding b by auto
  from sub inI have 6: "fst ` set (b # bs) \<subseteq> I" unfolding b by auto
  show ?case by (intro conjI 1 2 3 4 5 6 dom)
qed

lemma comma_separated_Cons:
  "xs \<noteq> [] \<Longrightarrow> comma_separated (x # xs) = x @ '', '' @ comma_separated xs"
  by (cases xs) simp_all

lemma append_failure_fold:
  assumes "\<forall>x \<in> set xs. x \<noteq> []"
  shows "fold append_failure xs f =
         (if xs = [] then f else (if f = [] then [] else f @ '', '') @ comma_separated xs)"
  using assms
proof (induction xs arbitrary: f)
  case Nil
  then show ?case by simp
next
  case (Cons x xs)
  let ?g = "append_failure x f"
  from Cons.prems have x: "x \<noteq> []" and rest: "\<forall>x \<in> set xs. x \<noteq> []" by simp_all
  have g: "?g = (if f = [] then [] else f @ '', '') @ x" by (simp add: append_failure_def)
  have ne: "?g \<noteq> []" using x unfolding g by simp
  have "fold append_failure (x # xs) f = fold append_failure xs ?g" by simp
  also have "\<dots> = (if xs = [] then ?g else ?g @ '', '' @ comma_separated xs)"
    unfolding Cons.IH [OF rest] using ne by simp
  also have "\<dots> = (if f = [] then [] else f @ '', '') @ comma_separated (x # xs)"
  proof (cases "xs = []")
    case True
    then show ?thesis unfolding g by simp
  next
    case False
    then show ?thesis unfolding g comma_separated_Cons [OF False] by simp
  qed
  finally show ?case by simp
qed

lemma auto_place_empty_pool:
  "auto_place xs ({}, m, f) = ({}, m, fold append_failure xs f)"
  by (induction xs arbitrary: f) (simp_all add: append_failure_def)

lemma auto_place_step:
  "I \<noteq> {} \<Longrightarrow> auto_place (x # xs) (I, m, f) =
     auto_place xs (I - {Min I}, fmupd (Min I) (insert x (map_at {} m (Min I))) m, f)"
  by simp

lemma auto_place_effect:
  assumes "auto_place xs (I, m, f) = (I', m', f')"
    and "finite I" and "distinct xs" and "set xs \<inter> placed_services m = {}"
    and "disjoint_placement m" and "I \<inter> fmdom' m = {}"
  shows "placed_services m' = placed_services m \<union> set (take (card I) xs) \<and>
         disjoint_placement m' \<and> I' \<inter> fmdom' m' = {} \<and> I' \<union> fmdom' m' = I \<union> fmdom' m \<and>
         finite I' \<and> f' = fold append_failure (drop (card I) xs) f"
  using assms
proof (induction xs arbitrary: I m f)
  case Nil
  then show ?case by simp
next
  case (Cons x xs)
  show ?case
  proof (cases "I = {}")
    case True
    from Cons.prems(1) have "I' = {}" "m' = m" "f' = fold append_failure (x # xs) f"
      unfolding True auto_place_empty_pool by simp_all
    with True Cons.prems(5,6) show ?thesis by simp
  next
    case False
    define a where "a = Min I"
    define m1 where "m1 = fmupd a (map_at {} m a \<union> {x}) m"
    from False Cons.prems(2) have aI: "a \<in> I" unfolding a_def by simp
    with Cons.prems(6) have "a \<notin> fmdom' m" by auto
    then have none: "fmlookup m a = None" by (simp add: fmdom'_notD)
    then have at: "map_at {} m a = {}" by simp
    have rec: "auto_place xs (I - {a}, m1, f) = (I', m', f')"
      using Cons.prems(1) unfolding auto_place_step [OF False] a_def m1_def by simp
    have fin: "finite (I - {a})" using Cons.prems(2) by simp
    have dx: "distinct xs" using Cons.prems(3) by simp
    have pl1: "placed_services m1 = placed_services m \<union> {x}"
      unfolding m1_def using placed_services_grow [of m a "map_at {} m a \<union> {x}"] at by simp
    have xs_new: "set xs \<inter> placed_services m = {}" and x_new: "{x} \<inter> placed_services m = {}"
      and x_xs: "x \<notin> set xs"
      using Cons.prems(3,4) by auto
    have sep1: "set xs \<inter> placed_services m1 = {}"
      unfolding pl1 using xs_new x_xs by auto
    have d1: "disjoint_placement m1"
      unfolding m1_def by (rule disjoint_placement_grow [OF Cons.prems(5) x_new])
    have domm1: "fmdom' m1 = insert a (fmdom' m)" unfolding m1_def by simp
    have dom1: "(I - {a}) \<inter> fmdom' m1 = {}" unfolding domm1 using Cons.prems(6) by auto
    note IH = Cons.IH [OF rec fin dx sep1 d1 dom1]
    have card: "card I = Suc (card (I - {a}))"
      by (rule card.remove [OF Cons.prems(2) aI])
    have un: "(I - {a}) \<union> fmdom' m1 = I \<union> fmdom' m" unfolding domm1 using aI by auto
    have tk: "set (take (card I) (x # xs)) = {x} \<union> set (take (card (I - {a})) xs)"
      unfolding card by simp
    have dr: "drop (card I) (x # xs) = drop (card (I - {a})) xs" unfolding card by simp
    from IH have 1: "placed_services m' = placed_services m \<union> set (take (card I) (x # xs))"
      unfolding tk pl1 by (simp add: Un_assoc)
    from IH have 2: "disjoint_placement m'" and 3: "I' \<inter> fmdom' m' = {}" and 5: "finite I'" by simp_all
    from IH have 4: "I' \<union> fmdom' m' = I \<union> fmdom' m" unfolding un by simp
    from IH have 6: "f' = fold append_failure (drop (card I) (x # xs)) f" unfolding dr by simp
    from 1 2 3 4 5 6 show ?thesis by simp
  qed
qed

lemma add_idle_nodes_lookup:
  "fmlookup (add_idle_nodes nodes m) a =
     (if a \<in> fmdom' m then fmlookup m a else if a \<in> set nodes then Some {} else None)"
proof (induction nodes arbitrary: m)
  case Nil
  then show ?case by (simp add: add_idle_nodes_def fmdom'_notD)
next
  case (Cons n nodes)
  have step: "add_idle_nodes (n # nodes) m = add_idle_nodes nodes (fmupd n (map_at {} m n) m)"
    by (simp add: add_idle_nodes_def)
  show ?case unfolding step Cons.IH
    by (cases "fmlookup m n") (auto simp: fmlookup_dom'_iff map_at_def)
qed

lemma add_idle_nodes_effect:
  "fmdom' (add_idle_nodes nodes m) = fmdom' m \<union> set nodes"
  "placed_services (add_idle_nodes nodes m) = placed_services m"
  "disjoint_placement m \<Longrightarrow> disjoint_placement (add_idle_nodes nodes m)"
proof -
  show "fmdom' (add_idle_nodes nodes m) = fmdom' m \<union> set nodes"
    by (auto simp: fmlookup_dom'_iff add_idle_nodes_lookup split: if_splits)
  show "placed_services (add_idle_nodes nodes m) = placed_services m"
    by (auto simp: placed_services_iff add_idle_nodes_lookup fmlookup_dom'_iff split: if_splits)
       (metis empty_iff option.inject)+
  show "disjoint_placement (add_idle_nodes nodes m)" if "disjoint_placement m"
    unfolding disjoint_placement_def
  proof (intro allI impI)
    fix a b A B assume ne: "a \<noteq> b"
      and A: "fmlookup (add_idle_nodes nodes m) a = Some A"
      and B: "fmlookup (add_idle_nodes nodes m) b = Some B"
    from A have A': "fmlookup m a = Some A \<or> A = {}"
      by (auto simp: add_idle_nodes_lookup split: if_splits)
    from B have B': "fmlookup m b = Some B \<or> B = {}"
      by (auto simp: add_idle_nodes_lookup split: if_splits)
    from A' B' ne that show "A \<inter> B = {}" by (blast dest: disjoint_placementD)
  qed
qed

lemma snapshot_idle_nodes_eq: "snapshot_idle_nodes s = fmdom' (node_map s)"
proof -
  have f: "fold (\<lambda>node acc. insert (fst node) acc) es A = A \<union> fst ` set es"
    for es :: "(string \<times> Node) list" and A
    by (induction es arbitrary: A) auto
  show ?thesis
    unfolding snapshot_idle_nodes_def f map_entries_def
    by (simp add: image_image)
qed

lemma insert_fold: "fold (\<lambda>i acc. insert (g i) acc) is A = A \<union> g ` set is"
  by (induction "is" arbitrary: A) auto

lemma expand_services_eq:
  "expand_services svcs U = U \<union> (\<Union>sn \<in> set svcs. service_instance sn ` {0..<count sn})"
proof (induction svcs arbitrary: U)
  case Nil
  then show ?case by (simp add: expand_services_def)
next
  case (Cons sn svcs)
  have iv: "{0..count sn - 1} = {0..<count sn}" by auto
  have "expand_services (sn # svcs) U =
        expand_services svcs (U \<union> service_instance sn ` {0..<count sn})"
    by (simp add: expand_services_def insert_fold iv)
  then show ?case unfolding Cons.IH by auto
qed

lemma finite_expand_services: "finite (expand_services svcs {})"
  unfolding expand_services_eq by simp

lemma service_instance_nonempty: "service_instance sn i \<noteq> []"
  by (simp add: service_instance_def)

lemma expand_services_nonempty: "x \<in> expand_services svcs {} \<Longrightarrow> x \<noteq> []"
  unfolding expand_services_eq by (auto simp: service_instance_nonempty)

lemma comma_separated_nonempty:
  "ys \<noteq> [] \<Longrightarrow> \<forall>y \<in> set ys. y \<noteq> [] \<Longrightarrow> comma_separated ys \<noteq> []"
  by (induction ys rule: comma_separated.induct) simp_all

text \<open>What the placement has computed when the bundles have been consumed.\<close>

lemma DoRunTest_placement_after_bundles:
  assumes "services test \<noteq> []"
    and "place_bundles (node_service_bundles test)
           (expand_services (services test) {}, fmdom' (node_map s), fmempty) = Inr (U, I, m)"
  shows "DoRunTest_placement s test =
     (if card I < card U then
        Inl (NotFoundError (''No idle node for placement of services: '' @
              comma_separated (drop (card I) (sorted_list_of_set U))))
      else Inr (add_idle_nodes (sorted_list_of_set (fst (auto_place (sorted_list_of_set U) (I, m, []))))
                  (fst (snd (auto_place (sorted_list_of_set U) (I, m, []))))))"
    and "card U \<le> card I \<Longrightarrow> snd (snd (auto_place (sorted_list_of_set U) (I, m, []))) = []"
proof -
  let ?xs = "sorted_list_of_set U"
  note E = place_bundles_effect [OF assms(2)]
  have sep0: "expand_services (services test) {} \<inter> placed_services fmempty = {}" by simp
  from E [OF sep0] have sep: "U \<inter> placed_services m = {}" and d: "disjoint_placement m"
    and sub: "U \<subseteq> expand_services (services test) {}"
    and I: "I = fmdom' (node_map s) - fst ` set (node_service_bundles test)"
    and dom: "fmdom' m = {a. \<exists>svcs. (a, svcs) \<in> set (node_service_bundles test) \<and> svcs \<noteq> []}"
    by simp_all
  have finU: "finite U" using sub finite_expand_services by (rule finite_subset)
  have finI: "finite I" unfolding I by simp
  have setxs: "set ?xs = U" and dxs: "distinct ?xs" and len: "length ?xs = card U"
    using finU by simp_all
  have Idom: "I \<inter> fmdom' m = {}" unfolding I dom by force
  obtain I2 m2 f where ap: "auto_place ?xs (I, m, []) = (I2, m2, f)"
    by (cases "auto_place ?xs (I, m, [])")
  have sepx: "set ?xs \<inter> placed_services m = {}" unfolding setxs by (rule sep)
  note A = auto_place_effect [OF ap finI dxs sepx d Idom]
  have ne: "\<forall>x \<in> set (drop (card I) ?xs). x \<noteq> []"
  proof
    fix x assume "x \<in> set (drop (card I) ?xs)"
    then have "x \<in> set ?xs" by (rule in_set_dropD)
    with setxs sub show "x \<noteq> []" by (auto dest: expand_services_nonempty)
  qed
  have f: "f = (if drop (card I) ?xs = [] then [] else comma_separated (drop (card I) ?xs))"
    using A append_failure_fold [OF ne, of "[]"] by simp
  have fne: "f \<noteq> [] \<longleftrightarrow> card I < card U"
  proof (cases "drop (card I) ?xs = []")
    case True
    with f len show ?thesis by simp
  next
    case False
    with f comma_separated_nonempty [OF False ne] len show ?thesis by simp
  qed
  have f2: "card I < card U \<Longrightarrow> f = comma_separated (drop (card I) ?xs)"
    using f len by simp
  show "DoRunTest_placement s test =
     (if card I < card U then
        Inl (NotFoundError (''No idle node for placement of services: '' @
              comma_separated (drop (card I) (sorted_list_of_set U))))
      else Inr (add_idle_nodes (sorted_list_of_set (fst (auto_place (sorted_list_of_set U) (I, m, []))))
                  (fst (snd (auto_place (sorted_list_of_set U) (I, m, []))))))"
    using assms fne f2 by (simp add: DoRunTest_placement_def snapshot_idle_nodes_eq Let_def ap)
  show "snd (snd (auto_place (sorted_list_of_set U) (I, m, []))) = []" if "card U \<le> card I"
    using fne that unfolding ap by simp
qed

text \<open>The placement a successful run computes.\<close>

lemma DoRunTest_placement_result:
  assumes "DoRunTest_placement s test = Inr node_service_map"
  shows "placed_services node_service_map =
           (\<Union>sn \<in> set (services test). service_instance sn ` {0..<count sn}) \<and>
         disjoint_placement node_service_map \<and>
         fmdom' node_service_map =
           {a. \<exists>svcs. (a, svcs) \<in> set (node_service_bundles test) \<and> svcs \<noteq> []} \<union>
           (fmdom' (node_map s) - fst ` set (node_service_bundles test)) \<and>
         fst ` set (node_service_bundles test) \<subseteq> fmdom' (node_map s)"
proof -
  let ?U0 = "expand_services (services test) {}"
  from assms have sv: "services test \<noteq> []"
    by (auto simp: DoRunTest_placement_def split: if_splits)
  from assms sv obtain U I m where pb: "place_bundles (node_service_bundles test)
           (?U0, fmdom' (node_map s), fmempty) = Inr (U, I, m)"
    by (auto simp: DoRunTest_placement_def snapshot_idle_nodes_eq Let_def split: sum.splits)
  let ?xs = "sorted_list_of_set U"
  obtain I2 m2 f where ap: "auto_place ?xs (I, m, []) = (I2, m2, f)"
    by (cases "auto_place ?xs (I, m, [])")
  note R = DoRunTest_placement_after_bundles [OF sv pb]
  from R(1) assms have le: "card U \<le> card I"
    and nsm: "node_service_map = add_idle_nodes (sorted_list_of_set I2) m2"
    unfolding ap by (auto split: if_splits)
  have sep0: "?U0 \<inter> placed_services fmempty = {}" by simp
  from place_bundles_effect [OF pb sep0]
  have sep: "U \<inter> placed_services m = {}" and d: "disjoint_placement m"
    and sub: "U \<subseteq> ?U0" and all: "U \<union> placed_services m = ?U0"
    and I: "I = fmdom' (node_map s) - fst ` set (node_service_bundles test)"
    and dom: "fmdom' m = {a. \<exists>svcs. (a, svcs) \<in> set (node_service_bundles test) \<and> svcs \<noteq> []}"
    and named: "fst ` set (node_service_bundles test) \<subseteq> fmdom' (node_map s)"
    by simp_all
  have finU: "finite U" using sub finite_expand_services by (rule finite_subset)
  have finI: "finite I" unfolding I by simp
  have setxs: "set ?xs = U" and dxs: "distinct ?xs" and len: "length ?xs = card U"
    using finU by simp_all
  have Idom: "I \<inter> fmdom' m = {}" unfolding I dom by force
  have sepx: "set ?xs \<inter> placed_services m = {}" unfolding setxs by (rule sep)
  from auto_place_effect [OF ap finI dxs sepx d Idom]
  have pl2: "placed_services m2 = placed_services m \<union> set (take (card I) ?xs)"
    and d2: "disjoint_placement m2" and un2: "I2 \<union> fmdom' m2 = I \<union> fmdom' m"
    and fin2: "finite I2" by simp_all
  have "take (card I) ?xs = ?xs" using le len by simp
  with pl2 setxs all have placed: "placed_services m2 = ?U0" by auto
  have 1: "placed_services node_service_map =
           (\<Union>sn \<in> set (services test). service_instance sn ` {0..<count sn})"
    unfolding nsm add_idle_nodes_effect(2) placed expand_services_eq by simp
  have 2: "disjoint_placement node_service_map"
    unfolding nsm by (rule add_idle_nodes_effect(3) [OF d2])
  have "fmdom' node_service_map = fmdom' m2 \<union> I2"
    unfolding nsm add_idle_nodes_effect(1) using fin2 by simp
  also have "\<dots> = I \<union> fmdom' m" using un2 by auto
  finally have 3: "fmdom' node_service_map =
           {a. \<exists>svcs. (a, svcs) \<in> set (node_service_bundles test) \<and> svcs \<noteq> []} \<union>
           (fmdom' (node_map s) - fst ` set (node_service_bundles test))"
    unfolding I dom by auto
  from 1 2 3 named show ?thesis by simp
qed

text \<open>
  Claim C6, as the code has it.  When placement succeeds, the service instances held by
  the nodes of the placement are exactly the requested ones, \<open>type/i\<close> for
  \<open>0 \<le> i < count\<close>; no instance is held by two nodes; and the keys of the placement
  are the nodes named by a bundle that lists at least one service, together with every
  registered node that no bundle names.
\<close>

theorem DoRunTest_placement_partition:
  assumes "DoRunTest_placement s test = Inr node_service_map"
  shows "placed_services node_service_map =
           (\<Union>sn \<in> set (services test). service_instance sn ` {0..<count sn}) \<and>
         (\<forall>a b A B. a \<noteq> b \<longrightarrow> fmlookup node_service_map a = Some A \<longrightarrow>
            fmlookup node_service_map b = Some B \<longrightarrow> A \<inter> B = {}) \<and>
         fmdom' node_service_map =
           {a. \<exists>svcs. (a, svcs) \<in> set (node_service_bundles test) \<and> svcs \<noteq> []} \<union>
           (fmdom' (node_map s) - fst ` set (node_service_bundles test))"
proof -
  note R = DoRunTest_placement_result [OF assms]
  from R have union: "placed_services node_service_map =
           (\<Union>sn \<in> set (services test). service_instance sn ` {0..<count sn})"
    by simp
  from R have "disjoint_placement node_service_map" by simp
  then have apart: "\<forall>a b A B. a \<noteq> b \<longrightarrow> fmlookup node_service_map a = Some A \<longrightarrow>
            fmlookup node_service_map b = Some B \<longrightarrow> A \<inter> B = {}"
    unfolding disjoint_placement_def .
  from R have keys: "fmdom' node_service_map =
           {a. \<exists>svcs. (a, svcs) \<in> set (node_service_bundles test) \<and> svcs \<noteq> []} \<union>
           (fmdom' (node_map s) - fst ` set (node_service_bundles test))"
    by simp
  from union apart keys show ?thesis by blast
qed

theorem DoRunTest_placement_partition_witness:
  "\<not> isl (DoRunTest_placement two_nodes two_of_A_one_pinned) \<and>
   placed_services (projr (DoRunTest_placement two_nodes two_of_A_one_pinned)) = {''A/0'', ''A/1''} \<and>
   disjoint_placement (projr (DoRunTest_placement two_nodes two_of_A_one_pinned)) \<and>
   fmdom' (projr (DoRunTest_placement two_nodes two_of_A_one_pinned)) = {''node0'', ''node1''}"
proof -
  let ?p = "DoRunTest_placement two_nodes two_of_A_one_pinned"
  have r: "\<not> isl ?p" by code_simp
  then have run: "?p = Inr (projr ?p)" by simp
  have a: "(\<Union>sn \<in> set (services two_of_A_one_pinned). service_instance sn ` {0..<count sn})
           = {''A/0'', ''A/1''}"
    by code_simp
  have b: "{a. \<exists>svcs. (a, svcs) \<in> set (node_service_bundles two_of_A_one_pinned) \<and> svcs \<noteq> []} \<union>
           (fmdom' (node_map two_nodes) - fst ` set (node_service_bundles two_of_A_one_pinned))
           = {''node0'', ''node1''}"
  proof -
    have "{a. \<exists>svcs. (a, svcs) \<in> set (node_service_bundles two_of_A_one_pinned) \<and> svcs \<noteq> []}
          = {''node1''}"
      by (auto simp: two_of_A_one_pinned_def)
    moreover have "fmdom' (node_map two_nodes) - fst ` set (node_service_bundles two_of_A_one_pinned)
          = {''node0''}"
      by code_simp
    ultimately show ?thesis by auto
  qed
  from DoRunTest_placement_partition [OF run] r show ?thesis
    unfolding a b disjoint_placement_def by simp
qed

text \<open>
  Claim C6 as stated fails: with two registered nodes, one instance of \<open>A\<close> and a
  bundle that names \<open>node0\<close> with no services, placement succeeds and \<open>node0\<close>,
  which a bundle names, is not a key of the placement.
\<close>

theorem empty_bundle_node_missing_from_placement:
  "(case DoRunTest_placement two_nodes one_of_A_empty_bundle of
      Inl e \<Rightarrow> False
    | Inr node_service_map \<Rightarrow>
        ''node0'' \<in> fst ` set (node_service_bundles one_of_A_empty_bundle) \<and>
        ''node0'' \<in> fmdom' (node_map two_nodes) \<and>
        ''node0'' \<notin> fmdom' node_service_map)"
  by code_simp

text \<open>
  Claim C10.  The pool a test starts from is the set of all registered aliases, and the
  placement is the same whatever the idle flags of the nodes are; on the registry whose
  \<open>node0\<close> is busy, the one instance of \<open>A\<close> is placed on \<open>node0\<close>.
\<close>

theorem DoRunTest_placement_ignores_idle:
  "snapshot_idle_nodes s = fmdom' (node_map s) \<and>
   DoRunTest_placement (s\<lparr>node_map := fmmap (\<lambda>node. node\<lparr>idle := flag node\<rparr>) (node_map s)\<rparr>) test
     = DoRunTest_placement s test \<and>
   map_option idle (fmlookup (node_map node0_busy) ''node0'') = Some False \<and>
   (case DoRunTest_placement node0_busy one_of_A of
      Inl e \<Rightarrow> False
    | Inr node_service_map \<Rightarrow> fmlookup node_service_map ''node0'' = Some {''A/0''})"
proof -
  have 1: "snapshot_idle_nodes s = fmdom' (node_map s)" by (rule snapshot_idle_nodes_eq)
  have 2: "DoRunTest_placement (s\<lparr>node_map := fmmap (\<lambda>node. node\<lparr>idle := flag node\<rparr>) (node_map s)\<rparr>) test
     = DoRunTest_placement s test"
    by (simp add: DoRunTest_placement_def snapshot_idle_nodes_eq)
  have 3: "map_option idle (fmlookup (node_map node0_busy) ''node0'') = Some False"
    by code_simp
  have 4: "(case DoRunTest_placement node0_busy one_of_A of
      Inl e \<Rightarrow> False
    | Inr node_service_map \<Rightarrow> fmlookup node_service_map ''node0'' = Some {''A/0''})"
    by code_simp
  from 1 2 3 4 show ?thesis by simp
qed

section \<open>Fan-out phases: proofs\<close>

lemma drain_returns:
  "n \<le> length (filter fst cq) \<Longrightarrow>
   \<exists>rest. drain finished n cq st = Some (foldl finished st (completed n cq), rest)"
proof (induction finished n cq st rule: drain.induct)
  case (1 finished cq st)
  then show ?case by (simp add: completed_def)
next
  case (2 finished rpc_count st)
  then show ?case by simp
next
  case (3 finished rpc_count next_ok finished_rpc cq st)
  then show ?case by (cases next_ok) (simp_all add: completed_def)
qed

lemma drain_blocks:
  "length (filter fst cq) < n \<Longrightarrow> drain finished n cq st = None"
proof (induction finished n cq st rule: drain.induct)
  case (1 finished cq st)
  then show ?case by simp
next
  case (2 finished rpc_count st)
  then show ?case by simp
next
  case (3 finished rpc_count next_ok finished_rpc cq st)
  then show ?case by (cases next_ok) simp_all
qed

lemma length_completed: "n \<le> length (filter fst cq) \<Longrightarrow> length (completed n cq) = n"
  by (simp add: completed_def)

lemma ok_keep_failure: "ok (keep_failure st x) \<longleftrightarrow> ok st \<and> ok x"
  by (simp add: keep_failure_def)

lemma ok_foldl_keep_failure:
  "ok (foldl keep_failure st xs) \<longleftrightarrow> ok st \<and> (\<forall>x \<in> set xs. ok x)"
  by (induction xs arbitrary: st) (auto simp: ok_keep_failure)

lemma foldl_keep_failure_last:
  "foldl keep_failure st xs =
     (if filter (\<lambda>x. \<not> ok x) xs = [] then st else last (filter (\<lambda>x. \<not> ok x) xs))"
proof (induction xs arbitrary: st)
  case Nil
  then show ?case by simp
next
  case (Cons x xs)
  show ?case unfolding foldl_Cons Cons.IH by (simp add: keep_failure_def)
qed

lemma ok_OkStatus [simp]: "ok OkStatus"
  by (simp add: ok_def OkStatus_def)

lemma not_ok_InvalidArgumentError [simp]: "\<not> ok (InvalidArgumentError msg)"
  by (simp add: ok_def InvalidArgumentError_def)

lemma foldl_ConfigureNodes_finished:
  "foldl ConfigureNodes_finished st ps =
     (foldl keep_failure (fst st) (map rpc_status ps), foldl MergeFrom (snd st) (map rpc_response ps))"
  by (induction ps arbitrary: st) (simp_all add: ConfigureNodes_finished_def)

lemma foldl_IntroducePeers_finished:
  "foldl IntroducePeers_finished st ps = foldl keep_failure st (map rpc_status ps)"
  by (induction ps arbitrary: st) (simp_all add: IntroducePeers_finished_def)

lemma foldl_RunTraffic_finished:
  "foldl RunTraffic_finished st ps =
     (foldl keep_failure (fst st) (map rpc_status ps),
      foldl MergeFrom (fst (snd st)) (map rpc_response ps),
      foldl (\<lambda>s p. mark_idle (rpc_node p) s) (snd (snd st)) ps)"
  by (induction ps arbitrary: st) (simp_all add: RunTraffic_finished_def)

lemma issue_rpcs_ready:
  assumes "\<forall>t \<in> set ts. \<exists>found node_stub. fmlookup (node_map s) t = Some found \<and> stub found = Some node_stub"
    and "\<And>found. stub (prepare found) = stub found"
    and "distinct ts"
  shows "\<exists>M. issue_rpcs call prepare ts (s, k) =
           Some (s\<lparr>node_map := M, issued_rpcs := issued_rpcs s @ map call ts\<rparr>, k + length ts) \<and>
         (\<forall>a. fmlookup M a = (if a \<in> set ts then map_option prepare (fmlookup (node_map s) a)
                               else fmlookup (node_map s) a))"
  using assms(1,3)
proof (induction ts arbitrary: s k)
  case Nil
  then show ?case by (intro exI [of _ "node_map s"]) simp
next
  case (Cons t ts)
  from Cons.prems(1) obtain found node_stub
    where f: "fmlookup (node_map s) t = Some found" and st: "stub found = Some node_stub"
    by auto
  let ?s1 = "s\<lparr>node_map := fmupd t (prepare found) (node_map s),
               issued_rpcs := issued_rpcs s @ [call t]\<rparr>"
  from Cons.prems(2) have t: "t \<notin> set ts" and d: "distinct ts" by simp_all
  have ready1: "\<forall>u \<in> set ts. \<exists>found node_stub. fmlookup (node_map ?s1) u = Some found \<and> stub found = Some node_stub"
  proof
    fix u assume u: "u \<in> set ts"
    with t have "u \<noteq> t" by auto
    with Cons.prems(1) u show "\<exists>found node_stub. fmlookup (node_map ?s1) u = Some found \<and> stub found = Some node_stub"
      by simp
  qed
  from Cons.IH [OF ready1 d, of "Suc k"] obtain M
    where run: "issue_rpcs call prepare ts (?s1, Suc k) =
             Some (?s1\<lparr>node_map := M, issued_rpcs := issued_rpcs ?s1 @ map call ts\<rparr>, Suc k + length ts)"
      and M: "\<And>a. fmlookup M a = (if a \<in> set ts then map_option prepare (fmlookup (node_map ?s1) a)
                               else fmlookup (node_map ?s1) a)"
    by blast
  have step: "issue_rpcs call prepare (t # ts) (s, k) = issue_rpcs call prepare ts (?s1, Suc k)"
    using f st by simp
  have "issue_rpcs call prepare (t # ts) (s, k) =
           Some (s\<lparr>node_map := M, issued_rpcs := issued_rpcs s @ map call (t # ts)\<rparr>, k + length (t # ts))"
    unfolding step run by simp
  moreover have "\<forall>a. fmlookup M a = (if a \<in> set (t # ts) then map_option prepare (fmlookup (node_map s) a)
                               else fmlookup (node_map s) a)"
    using M t f by auto
  ultimately show ?case by blast
qed

lemma targets_list:
  "set (sorted_list_of_set (fmdom' m)) = fmdom' m"
  "distinct (sorted_list_of_set (fmdom' m))"
  "length (sorted_list_of_set (fmdom' m)) = card (fmdom' m)"
  by simp_all

lemma issue_rpcs_unprepared:
  assumes "targets_ready s m"
  shows "issue_rpcs call id (sorted_list_of_set (fmdom' m)) (s, 0) =
           Some (s\<lparr>issued_rpcs := issued_rpcs s @ map call (sorted_list_of_set (fmdom' m))\<rparr>,
                 card (fmdom' m))"
proof -
  let ?ts = "sorted_list_of_set (fmdom' m)"
  have ready: "\<forall>t \<in> set ?ts. \<exists>found node_stub. fmlookup (node_map s) t = Some found \<and> stub found = Some node_stub"
    using assms unfolding targets_ready_def targets_list by (auto split: option.splits)
  from issue_rpcs_ready [OF ready _ targets_list(2), of id call 0] obtain M
    where run: "issue_rpcs call id ?ts (s, 0) =
             Some (s\<lparr>node_map := M, issued_rpcs := issued_rpcs s @ map call ?ts\<rparr>, 0 + length ?ts)"
      and M: "\<And>a. fmlookup M a = (if a \<in> set ?ts then map_option id (fmlookup (node_map s) a)
                               else fmlookup (node_map s) a)"
    by auto
  have "M = node_map s" by (rule fmap_ext) (simp add: M option.map_id)
  with run show ?thesis by (simp add: targets_list)
qed

lemma targets_readyD:
  assumes "targets_ready s m"
  shows "\<forall>t \<in> set (sorted_list_of_set (fmdom' m)).
           \<exists>found node_stub. fmlookup (node_map s) t = Some found \<and> stub found = Some node_stub"
  using assms unfolding targets_ready_def targets_list by (auto split: option.splits)

lemma all_ok_last_failure: "ok (last_failure xs) \<longleftrightarrow> (\<forall>x \<in> set xs. ok x)"
proof -
  have "last_failure xs = foldl keep_failure OkStatus xs"
    by (simp add: last_failure_def foldl_keep_failure_last)
  then show ?thesis by (simp add: ok_foldl_keep_failure)
qed

lemma foldl_keep_failure_OkStatus: "foldl keep_failure OkStatus xs = last_failure xs"
  by (simp add: last_failure_def foldl_keep_failure_last)

lemma ConfigureNodes_result:
  assumes "targets_ready s m"
  shows "ConfigureNodes s m test cq =
    (if card (fmdom' m) \<le> length (filter fst cq) then
       Returned (if \<forall>p \<in> set (completed (card (fmdom' m)) cq). ok (rpc_status p)
                 then Inr (foldl MergeFrom fmempty (map rpc_response (completed (card (fmdom' m)) cq)))
                 else Inl (InvalidArgumentError ''Unknown GRPC error2''),
                 s\<lparr>issued_rpcs := issued_rpcs s @ configure_calls m\<rparr>)
     else Blocked)"
proof (cases "card (fmdom' m) \<le> length (filter fst cq)")
  case True
  from drain_returns [where finished = ConfigureNodes_finished and st = "(OkStatus, fmempty)", OF True]
  obtain rest
    where d: "drain ConfigureNodes_finished (card (fmdom' m)) cq (OkStatus, fmempty) =
        Some (foldl ConfigureNodes_finished (OkStatus, fmempty) (completed (card (fmdom' m)) cq), rest)"
    by blast
  show ?thesis
    unfolding ConfigureNodes_def issue_rpcs_unprepared [OF assms]
    using True
    by (simp add: d foldl_ConfigureNodes_finished foldl_keep_failure_OkStatus all_ok_last_failure
        configure_calls_def)
next
  case False
  then have "drain ConfigureNodes_finished (card (fmdom' m)) cq (OkStatus, fmempty) = None"
    by (simp add: drain_blocks)
  with False show ?thesis
    unfolding ConfigureNodes_def issue_rpcs_unprepared [OF assms] by simp
qed

lemma IntroducePeers_result:
  assumes "targets_ready s m"
  shows "IntroducePeers s m service_map cq =
    (if card (fmdom' m) \<le> length (filter fst cq) then
       Returned (if \<forall>p \<in> set (completed (card (fmdom' m)) cq). ok (rpc_status p)
                 then OkStatus else InvalidArgumentError ''Unknown GRPC error'',
                 s\<lparr>issued_rpcs := issued_rpcs s @ introduce_calls m\<rparr>)
     else Blocked)"
proof (cases "card (fmdom' m) \<le> length (filter fst cq)")
  case True
  from drain_returns [where finished = IntroducePeers_finished and st = OkStatus, OF True]
  obtain rest
    where d: "drain IntroducePeers_finished (card (fmdom' m)) cq OkStatus =
        Some (foldl IntroducePeers_finished OkStatus (completed (card (fmdom' m)) cq), rest)"
    by blast
  show ?thesis
    unfolding IntroducePeers_def issue_rpcs_unprepared [OF assms]
    using True
    by (simp add: d foldl_IntroducePeers_finished foldl_keep_failure_OkStatus all_ok_last_failure
        introduce_calls_def)
next
  case False
  then have "drain IntroducePeers_finished (card (fmdom' m)) cq OkStatus = None"
    by (simp add: drain_blocks)
  with False show ?thesis
    unfolding IntroducePeers_def issue_rpcs_unprepared [OF assms] by simp
qed

lemma stub_set_idle [simp]: "stub (set_idle flag found) = stub found"
  by (simp add: set_idle_def)

lemma idle_set_idle [simp]: "idle (set_idle flag found) = flag"
  by (simp add: set_idle_def)

lemma RunTraffic_issue:
  assumes "targets_ready s m"
  shows "\<exists>M. issue_rpcs RunTrafficRpc (set_idle False) (sorted_list_of_set (fmdom' m)) (s, 0) =
           Some (s\<lparr>node_map := M, issued_rpcs := issued_rpcs s @ traffic_calls m\<rparr>, card (fmdom' m)) \<and>
         (\<forall>a. fmlookup M a = (if a \<in> fmdom' m then map_option (set_idle False) (fmlookup (node_map s) a)
                               else fmlookup (node_map s) a))"
  using issue_rpcs_ready [where prepare = "set_idle False" and call = RunTrafficRpc and k = 0,
      OF targets_readyD [OF assms] stub_set_idle targets_list(2)]
  by (simp add: targets_list traffic_calls_def)

lemma RunTraffic_result:
  assumes "targets_ready s m"
  shows "\<exists>M. (\<forall>a. fmlookup M a = (if a \<in> fmdom' m then map_option (set_idle False) (fmlookup (node_map s) a)
                               else fmlookup (node_map s) a)) \<and>
    RunTraffic s m cq =
    (if card (fmdom' m) \<le> length (filter fst cq) then
       Returned (if \<forall>p \<in> set (completed (card (fmdom' m)) cq). ok (rpc_status p)
                 then Inr (foldl MergeFrom fmempty (map rpc_response (completed (card (fmdom' m)) cq)))
                 else Inl (InvalidArgumentError ''Unknown GRPC error2''),
                 foldl (\<lambda>s p. mark_idle (rpc_node p) s)
                   (s\<lparr>node_map := M, issued_rpcs := issued_rpcs s @ traffic_calls m\<rparr>)
                   (completed (card (fmdom' m)) cq))
     else Blocked)"
proof -
  from RunTraffic_issue [OF assms] obtain M
    where iss: "issue_rpcs RunTrafficRpc (set_idle False) (sorted_list_of_set (fmdom' m)) (s, 0) =
           Some (s\<lparr>node_map := M, issued_rpcs := issued_rpcs s @ traffic_calls m\<rparr>, card (fmdom' m))"
      and M: "\<forall>a. fmlookup M a = (if a \<in> fmdom' m then map_option (set_idle False) (fmlookup (node_map s) a)
                               else fmlookup (node_map s) a)"
    by blast
  let ?s1 = "s\<lparr>node_map := M, issued_rpcs := issued_rpcs s @ traffic_calls m\<rparr>"
  have "RunTraffic s m cq =
    (if card (fmdom' m) \<le> length (filter fst cq) then
       Returned (if \<forall>p \<in> set (completed (card (fmdom' m)) cq). ok (rpc_status p)
                 then Inr (foldl MergeFrom fmempty (map rpc_response (completed (card (fmdom' m)) cq)))
                 else Inl (InvalidArgumentError ''Unknown GRPC error2''),
                 foldl (\<lambda>s p. mark_idle (rpc_node p) s) ?s1 (completed (card (fmdom' m)) cq))
     else Blocked)"
  proof (cases "card (fmdom' m) \<le> length (filter fst cq)")
    case True
    from drain_returns [where finished = RunTraffic_finished and st = "(OkStatus, fmempty, ?s1)", OF True]
    obtain rest
      where d: "drain RunTraffic_finished (card (fmdom' m)) cq (OkStatus, fmempty, ?s1) =
        Some (foldl RunTraffic_finished (OkStatus, fmempty, ?s1) (completed (card (fmdom' m)) cq), rest)"
      by blast
    show ?thesis
      unfolding RunTraffic_def iss
      using True
      by (simp add: d foldl_RunTraffic_finished foldl_keep_failure_OkStatus all_ok_last_failure)
  next
    case False
    then have "drain RunTraffic_finished (card (fmdom' m)) cq (OkStatus, fmempty, ?s1) = None"
      by (simp add: drain_blocks)
    with False show ?thesis unfolding RunTraffic_def iss by simp
  qed
  with M show ?thesis by blast
qed

lemma result_of_simps [simp]:
  "result_of (Returned (r, s)) = Returned r"
  "result_of Blocked = Blocked"
  "result_of Crashed = Crashed"
  by (simp_all add: result_of_def and_then_def)

lemma ConfigureNodes_status_variable:
  assumes "n \<le> length (filter fst cq)"
  shows "map_option (\<lambda>r. fst (fst r)) (drain ConfigureNodes_finished n cq (OkStatus, acc)) =
           Some (last_failure (map rpc_status (completed n cq)))"
  using drain_returns [where finished = ConfigureNodes_finished and st = "(OkStatus, acc)", OF assms]
  by (auto simp: foldl_ConfigureNodes_finished foldl_keep_failure_OkStatus)

lemma IntroducePeers_status_variable:
  assumes "n \<le> length (filter fst cq)"
  shows "map_option fst (drain IntroducePeers_finished n cq OkStatus) =
           Some (last_failure (map rpc_status (completed n cq)))"
  using drain_returns [where finished = IntroducePeers_finished and st = OkStatus, OF assms]
  by (auto simp: foldl_IntroducePeers_finished foldl_keep_failure_OkStatus)

lemma RunTraffic_status_variable:
  assumes "n \<le> length (filter fst cq)"
  shows "map_option (\<lambda>r. fst (fst r)) (drain RunTraffic_finished n cq (OkStatus, logs, s1)) =
           Some (last_failure (map rpc_status (completed n cq)))"
  using drain_returns [where finished = RunTraffic_finished and st = "(OkStatus, logs, s1)", OF assms]
  by (auto simp: foldl_RunTraffic_finished foldl_keep_failure_OkStatus)

lemma calls_after_simps [simp]:
  "calls_after (Returned (r, s)) = Returned (issued_rpcs s)"
  "calls_after Blocked = Blocked"
  "calls_after Crashed = Crashed"
  by (simp_all add: calls_after_def and_then_def)

lemma issued_rpcs_mark_idle [simp]: "issued_rpcs (mark_idle t s) = issued_rpcs s"
  by (simp add: mark_idle_def split: option.splits)

lemma issued_rpcs_mark_idle_foldl [simp]:
  "issued_rpcs (foldl (\<lambda>s p. mark_idle (rpc_node p) s) s0 ps) = issued_rpcs s0"
  by (induction ps arbitrary: s0) simp_all

lemma length_phase_calls:
  "length (configure_calls m) = card (fmdom' m)"
  "length (introduce_calls m) = card (fmdom' m)"
  "length (traffic_calls m) = card (fmdom' m)"
  by (simp_all add: configure_calls_def introduce_calls_def traffic_calls_def)

text \<open>
  Claim C2, as the code has it.  When every node of the placement is registered with a
  stub, each of the three phases issues one call per node of the placement and returns
  exactly when the queue has delivered as many completions as calls were issued: on
  fewer it waits for ever.  It returns \<open>INVALID_ARGUMENT\<close> with the fixed message
  \<open>Unknown GRPC error2\<close> (\<open>ConfigureNodes\<close>, \<open>RunTraffic\<close>) or \<open>Unknown GRPC error\<close>
  (\<open>IntroducePeers\<close>) when a completed call has a status that is not OK, and the merged
  responses (OK for \<open>IntroducePeers\<close>) when all are OK.  The status variable of the loop
  holds the last status that is not OK; it is not part of what the phase returns.
\<close>

theorem fan_out_phase_result:
  assumes "targets_ready s m"
  shows
    "result_of (ConfigureNodes s m test ccq) =
      (if card (fmdom' m) \<le> length (filter fst ccq) then
         Returned (if \<forall>p \<in> set (completed (card (fmdom' m)) ccq). ok (rpc_status p)
                   then Inr (foldl MergeFrom fmempty (map rpc_response (completed (card (fmdom' m)) ccq)))
                   else Inl (InvalidArgumentError ''Unknown GRPC error2''))
       else Blocked) \<and>
     result_of (IntroducePeers s m service_map icq) =
      (if card (fmdom' m) \<le> length (filter fst icq) then
         Returned (if \<forall>p \<in> set (completed (card (fmdom' m)) icq). ok (rpc_status p)
                   then OkStatus else InvalidArgumentError ''Unknown GRPC error'')
       else Blocked) \<and>
     result_of (RunTraffic s m tcq) =
      (if card (fmdom' m) \<le> length (filter fst tcq) then
         Returned (if \<forall>p \<in> set (completed (card (fmdom' m)) tcq). ok (rpc_status p)
                   then Inr (foldl MergeFrom fmempty (map rpc_response (completed (card (fmdom' m)) tcq)))
                   else Inl (InvalidArgumentError ''Unknown GRPC error2''))
       else Blocked) \<and>
     calls_after (ConfigureNodes s m test ccq) =
      (if card (fmdom' m) \<le> length (filter fst ccq)
       then Returned (issued_rpcs s @ configure_calls m) else Blocked) \<and>
     calls_after (IntroducePeers s m service_map icq) =
      (if card (fmdom' m) \<le> length (filter fst icq)
       then Returned (issued_rpcs s @ introduce_calls m) else Blocked) \<and>
     calls_after (RunTraffic s m tcq) =
      (if card (fmdom' m) \<le> length (filter fst tcq)
       then Returned (issued_rpcs s @ traffic_calls m) else Blocked) \<and>
     length (configure_calls m) = card (fmdom' m) \<and>
     length (introduce_calls m) = card (fmdom' m) \<and>
     length (traffic_calls m) = card (fmdom' m) \<and>
     (card (fmdom' m) \<le> length (filter fst ccq) \<longrightarrow>
        map_option (\<lambda>r. fst (fst r)) (drain ConfigureNodes_finished (card (fmdom' m)) ccq (OkStatus, fmempty)) =
          Some (last_failure (map rpc_status (completed (card (fmdom' m)) ccq)))) \<and>
     (card (fmdom' m) \<le> length (filter fst icq) \<longrightarrow>
        map_option fst (drain IntroducePeers_finished (card (fmdom' m)) icq OkStatus) =
          Some (last_failure (map rpc_status (completed (card (fmdom' m)) icq)))) \<and>
     (card (fmdom' m) \<le> length (filter fst tcq) \<longrightarrow>
        map_option (\<lambda>r. fst (fst r)) (drain RunTraffic_finished (card (fmdom' m)) tcq (OkStatus, fmempty, s1)) =
          Some (last_failure (map rpc_status (completed (card (fmdom' m)) tcq))))"
proof -
  have c: "result_of (ConfigureNodes s m test ccq) =
      (if card (fmdom' m) \<le> length (filter fst ccq) then
         Returned (if \<forall>p \<in> set (completed (card (fmdom' m)) ccq). ok (rpc_status p)
                   then Inr (foldl MergeFrom fmempty (map rpc_response (completed (card (fmdom' m)) ccq)))
                   else Inl (InvalidArgumentError ''Unknown GRPC error2''))
       else Blocked)"
    unfolding ConfigureNodes_result [OF assms] by simp
  have i: "result_of (IntroducePeers s m service_map icq) =
      (if card (fmdom' m) \<le> length (filter fst icq) then
         Returned (if \<forall>p \<in> set (completed (card (fmdom' m)) icq). ok (rpc_status p)
                   then OkStatus else InvalidArgumentError ''Unknown GRPC error'')
       else Blocked)"
    unfolding IntroducePeers_result [OF assms] by simp
  have ca: "calls_after (ConfigureNodes s m test ccq) =
      (if card (fmdom' m) \<le> length (filter fst ccq)
       then Returned (issued_rpcs s @ configure_calls m) else Blocked)"
    unfolding ConfigureNodes_result [OF assms] by simp
  have ia: "calls_after (IntroducePeers s m service_map icq) =
      (if card (fmdom' m) \<le> length (filter fst icq)
       then Returned (issued_rpcs s @ introduce_calls m) else Blocked)"
    unfolding IntroducePeers_result [OF assms] by simp
  from RunTraffic_result [OF assms, of tcq] obtain M where rt:
    "RunTraffic s m tcq =
    (if card (fmdom' m) \<le> length (filter fst tcq) then
       Returned (if \<forall>p \<in> set (completed (card (fmdom' m)) tcq). ok (rpc_status p)
                 then Inr (foldl MergeFrom fmempty (map rpc_response (completed (card (fmdom' m)) tcq)))
                 else Inl (InvalidArgumentError ''Unknown GRPC error2''),
                 foldl (\<lambda>s p. mark_idle (rpc_node p) s)
                   (s\<lparr>node_map := M, issued_rpcs := issued_rpcs s @ traffic_calls m\<rparr>)
                   (completed (card (fmdom' m)) tcq))
     else Blocked)"
    by blast
  then have t: "result_of (RunTraffic s m tcq) =
      (if card (fmdom' m) \<le> length (filter fst tcq) then
         Returned (if \<forall>p \<in> set (completed (card (fmdom' m)) tcq). ok (rpc_status p)
                   then Inr (foldl MergeFrom fmempty (map rpc_response (completed (card (fmdom' m)) tcq)))
                   else Inl (InvalidArgumentError ''Unknown GRPC error2''))
       else Blocked)"
    by simp
  from rt have ta: "calls_after (RunTraffic s m tcq) =
      (if card (fmdom' m) \<le> length (filter fst tcq)
       then Returned (issued_rpcs s @ traffic_calls m) else Blocked)"
    by simp
  from c i t ca ia ta show ?thesis
    by (simp add: ConfigureNodes_status_variable IntroducePeers_status_variable
        RunTraffic_status_variable length_phase_calls)
qed

theorem fan_out_phase_result_witness:
  "result_of (ConfigureNodes two_nodes placement_two_of_A two_of_A one_failure) =
     Returned (Inl (InvalidArgumentError ''Unknown GRPC error2'')) \<and>
   result_of (IntroducePeers two_nodes placement_two_of_A fmempty two_acks) = Returned OkStatus \<and>
   result_of (RunTraffic two_nodes placement_two_of_A (take 1 traffic_one_failure)) = Blocked \<and>
   map_option (\<lambda>r. fst (fst r)) (drain ConfigureNodes_finished 2 one_failure (OkStatus, fmempty)) =
     Some \<lparr>error_code = UNKNOWN, error_message = ''worker failed''\<rparr>"
proof -
  have ready: "targets_ready two_nodes placement_two_of_A" by code_simp
  have n: "card (fmdom' placement_two_of_A) = 2" by (simp add: placement_two_of_A_def)
  have cc: "completed 2 one_failure = [answer OK [] fmempty, answer UNKNOWN ''worker failed'' fmempty]"
    by (simp add: completed_def one_failure_def)
  have ic: "completed 2 two_acks = [answer OK [] (), answer OK [] ()]"
    by (simp add: completed_def two_acks_def)
  have lens: "length (filter fst one_failure) = 2" "length (filter fst two_acks) = 2"
    "length (filter fst (take 1 traffic_one_failure)) = 1"
    by (simp_all add: one_failure_def two_acks_def traffic_one_failure_def)
  have lf: "last_failure (map rpc_status [answer OK [] fmempty, answer UNKNOWN ''worker failed'' fmempty])
      = \<lparr>error_code = UNKNOWN, error_message = ''worker failed''\<rparr>"
    by (simp add: last_failure_def answer_def ok_def)
  from fan_out_phase_result [OF ready, of two_of_A one_failure fmempty two_acks
      "take 1 traffic_one_failure" two_nodes]
  show ?thesis
    unfolding n lens cc ic lf by (simp add: answer_def ok_def)
qed

text \<open>
  Claim C2 as stated fails: when two calls of \<open>ConfigureNodes\<close> complete with the
  statuses \<open>UNKNOWN\<close> \<open>first\<close> and then \<open>NOT_FOUND\<close> \<open>second\<close>, the status variable
  ends as the second one, not the first, and the phase returns a status that carries
  neither, with the message \<open>Unknown GRPC error2\<close>.
\<close>

theorem status_variable_holds_last_failure:
  "map_option (\<lambda>r. fst (fst r)) (drain ConfigureNodes_finished 2 two_failures (OkStatus, fmempty)) =
     Some \<lparr>error_code = NOT_FOUND, error_message = ''second''\<rparr> \<and>
   map (\<lambda>e. rpc_status (snd e)) two_failures =
     [\<lparr>error_code = UNKNOWN, error_message = ''first''\<rparr>,
      \<lparr>error_code = NOT_FOUND, error_message = ''second''\<rparr>] \<and>
   result_of (ConfigureNodes two_nodes placement_two_of_A two_of_A two_failures) =
     Returned (Inl \<lparr>error_code = INVALID_ARGUMENT, error_message = ''Unknown GRPC error2''\<rparr>)"
  by code_simp

section \<open>Running a test: proofs\<close>


lemma set_idle_twice [simp]: "set_idle x (set_idle y found) = set_idle x found"
  by (simp add: set_idle_def)




lemma all_stubs_built_iff:
  "all_stubs_built s \<longleftrightarrow> (\<forall>t found. fmlookup (node_map s) t = Some found \<longrightarrow> stub found \<noteq> None)"
proof
  assume a: "all_stubs_built s"
  show "\<forall>t found. fmlookup (node_map s) t = Some found \<longrightarrow> stub found \<noteq> None"
  proof (intro allI impI)
    fix t found assume f: "fmlookup (node_map s) t = Some found"
    then have "t \<in> fmdom' (node_map s)" by (rule fmdom'I)
    with a f show "stub found \<noteq> None" unfolding all_stubs_built_def by force
  qed
next
  assume "\<forall>t found. fmlookup (node_map s) t = Some found \<longrightarrow> stub found \<noteq> None"
  then show "all_stubs_built s"
    unfolding all_stubs_built_def by (auto simp: fmlookup_dom'_iff)
qed

lemma all_stubs_built_initial: "all_stubs_built initial_sequencer"
  by (simp add: all_stubs_built_def initial_sequencer_def)

lemma RegisterNode_node_map_lookup:
  assumes "RegisterNode D N s r resp = (st, c, s')" and "fmlookup (node_map s') a = Some found"
  shows "fmlookup (node_map s) a = Some found \<or> stub found \<noteq> None"
  using assms by (auto simp: RegisterNode_def Let_def split: if_splits option.splits)

lemma all_stubs_built_RegisterNode:
  assumes "all_stubs_built s" and "RegisterNode D N s r resp = (st, c, s')"
  shows "all_stubs_built s'"
  using assms(1) RegisterNode_node_map_lookup [OF assms(2)]
  unfolding all_stubs_built_iff by blast

lemma all_stubs_built_ready:
  assumes "all_stubs_built s" and "fmdom' m \<subseteq> fmdom' (node_map s)"
  shows "targets_ready s m"
  using assms unfolding all_stubs_built_def targets_ready_def by blast

lemma placement_keys_registered:
  assumes "DoRunTest_placement s test = Inr m"
  shows "fmdom' m \<subseteq> fmdom' (node_map s)"
proof -
  from DoRunTest_placement_result [OF assms]
  have keys: "fmdom' m =
           {a. \<exists>svcs. (a, svcs) \<in> set (node_service_bundles test) \<and> svcs \<noteq> []} \<union>
           (fmdom' (node_map s) - fst ` set (node_service_bundles test))"
    and named: "fst ` set (node_service_bundles test) \<subseteq> fmdom' (node_map s)"
    by simp_all
  show ?thesis unfolding keys using named by force
qed

lemma and_then_Returned [simp]: "and_then (Returned v) f = f v"
  by (simp add: and_then_def)

lemma DoRunTest_Configure_failure:
  assumes place: "DoRunTest_placement s test = Inr m"
    and stubs: "all_stubs_built s"
    and enough: "card (fmdom' m) \<le> length (filter fst (configure_cq env))"
    and failed: "\<exists>p \<in> set (completed (card (fmdom' m)) (configure_cq env)). \<not> ok (rpc_status p)"
  shows "DoRunTest s test env =
           Returned (Inl (InvalidArgumentError ''Unknown GRPC error2''),
                     s\<lparr>issued_rpcs := issued_rpcs s @ configure_calls m\<rparr>)"
proof -
  have ready: "targets_ready s m"
    by (rule all_stubs_built_ready [OF stubs placement_keys_registered [OF place]])
  have "ConfigureNodes s m test (configure_cq env) =
           Returned (Inl (InvalidArgumentError ''Unknown GRPC error2''),
                     s\<lparr>issued_rpcs := issued_rpcs s @ configure_calls m\<rparr>)"
    unfolding ConfigureNodes_result [OF ready] using enough failed by auto
  then show ?thesis unfolding DoRunTest_def place by simp
qed

lemma DoRunTestSequence_append:
  "DoRunTestSequence s (before @ after) acc =
     and_then (DoRunTestSequence s before acc) (\<lambda>(st, acc1, s1).
       if ok st then DoRunTestSequence s1 after acc1 else Returned (st, acc1, s1))"
proof (induction before arbitrary: s acc)
  case Nil
  then show ?case by simp
next
  case (Cons t before)
  obtain test cancelled env where t: "t = (test, cancelled, env)" by (cases t)
  show ?case
  proof (cases cancelled)
    case True
    then show ?thesis unfolding t by (simp add: ok_def)
  next
    case False
    show ?thesis
    proof (cases "DoRunTest s test env")
      case (Returned v)
      obtain r s1 where v: "v = (r, s1)" by (cases v)
      show ?thesis
      proof (cases r)
        case (Inl e)
        with False Returned v show ?thesis unfolding t by (simp add: ok_def)
      next
        case (Inr result)
        with False Returned v show ?thesis unfolding t by (simp add: Cons.IH)
      qed
    next
      case Crashed
      with False show ?thesis unfolding t by (simp add: and_then_def)
    next
      case Blocked
      with False show ?thesis unfolding t by (simp add: and_then_def)
    qed
  qed
qed

lemma configure_calls_only: "list_all is_configure_call (configure_calls m)"
  by (simp add: configure_calls_def list_all_iff)

text \<open>
  Claim C8.  When a test is reached in a sequence (the tests before it passed and the
  sequence is not cancelled before it), its placement succeeds and a completed call of
  \<open>ConfigureNodes\<close> has a status that is not OK, then \<open>DoRunTest\<close> returns the error
  of \<open>ConfigureNodes\<close>, the sequence returns \<open>ABORTED\<close> with the message of that error,
  and the only calls issued for the test are those of \<open>ConfigureNodes\<close>: none of
  \<open>IntroducePeers\<close> and none of \<open>RunTraffic\<close>.
\<close>

theorem Configure_failure_aborts_sequence:
  assumes place: "DoRunTest_placement s test = Inr m"
    and stubs: "all_stubs_built s"
    and enough: "card (fmdom' m) \<le> length (filter fst (configure_cq env))"
    and failed: "\<exists>p \<in> set (completed (card (fmdom' m)) (configure_cq env)). \<not> ok (rpc_status p)"
    and before: "DoRunTestSequence s0 tests_before results0 = Returned (st, results, s)"
    and passed: "ok st"
  shows "DoRunTest s test env =
           Returned (Inl (InvalidArgumentError ''Unknown GRPC error2''),
                     s\<lparr>issued_rpcs := issued_rpcs s @ configure_calls m\<rparr>) \<and>
         DoRunTestSequence s0 (tests_before @ (test, False, env) # tests_after) results0 =
           Returned (\<lparr>error_code = ABORTED, error_message = ''Unknown GRPC error2''\<rparr>, results,
                     s\<lparr>issued_rpcs := issued_rpcs s @ configure_calls m\<rparr>) \<and>
         list_all is_configure_call (configure_calls m)"
proof -
  note one = DoRunTest_Configure_failure [OF place stubs enough failed]
  have rest: "DoRunTestSequence s ((test, False, env) # tests_after) results =
           Returned (\<lparr>error_code = ABORTED, error_message = ''Unknown GRPC error2''\<rparr>, results,
                     s\<lparr>issued_rpcs := issued_rpcs s @ configure_calls m\<rparr>)"
    by (simp add: one InvalidArgumentError_def)
  have whole: "DoRunTestSequence s0 (tests_before @ (test, False, env) # tests_after) results0 =
           Returned (\<lparr>error_code = ABORTED, error_message = ''Unknown GRPC error2''\<rparr>, results,
                     s\<lparr>issued_rpcs := issued_rpcs s @ configure_calls m\<rparr>)"
    unfolding DoRunTestSequence_append before using passed rest by simp
  from one whole configure_calls_only show ?thesis by blast
qed

theorem Configure_failure_aborts_sequence_witness:
  "DoRunTestSequence two_nodes [(two_of_A, False, configure_fails)] [] =
     Returned (\<lparr>error_code = ABORTED, error_message = ''Unknown GRPC error2''\<rparr>, [],
       two_nodes\<lparr>issued_rpcs :=
         [ConfigureNodeRpc ''node0'' [''A/0''], ConfigureNodeRpc ''node1'' [''A/1'']]\<rparr>)"
proof -
  let ?p = "DoRunTest_placement two_nodes two_of_A"
  have r: "\<not> isl ?p" by code_simp
  then have place: "?p = Inr (projr ?p)" by simp
  have stubs: "all_stubs_built two_nodes" by code_simp
  have n: "card (fmdom' (projr ?p)) = 2" by code_simp
  have enough: "card (fmdom' (projr ?p)) \<le> length (filter fst (configure_cq configure_fails))"
    unfolding n by (simp add: configure_fails_def one_failure_def)
  have failed: "\<exists>p \<in> set (completed (card (fmdom' (projr ?p))) (configure_cq configure_fails)).
                  \<not> ok (rpc_status p)"
    unfolding n by (simp add: configure_fails_def one_failure_def completed_def answer_def ok_def)
  have before: "DoRunTestSequence two_nodes [] [] = Returned (OkStatus, [], two_nodes)" by simp
  have calls: "configure_calls (projr ?p) =
      [ConfigureNodeRpc ''node0'' [''A/0''], ConfigureNodeRpc ''node1'' [''A/1'']]"
    by code_simp
  have none: "issued_rpcs two_nodes = []" by code_simp
  from Configure_failure_aborts_sequence [OF place stubs enough failed before ok_OkStatus, of "[]"]
  have "DoRunTestSequence two_nodes ([] @ [(two_of_A, False, configure_fails)]) [] =
     Returned (\<lparr>error_code = ABORTED, error_message = ''Unknown GRPC error2''\<rparr>, [],
       two_nodes\<lparr>issued_rpcs := issued_rpcs two_nodes @ configure_calls (projr ?p)\<rparr>)"
    by blast
  then show ?thesis by (simp only: calls none append_Nil)
qed

text \<open>
  Claim C7.  When the bundles have been consumed and more services remain unplaced than
  nodes remain in the pool, \<open>DoRunTest\<close> fails with \<open>NOT_FOUND\<close>, and the message lists,
  separated by a comma and a space and in the order of the set, exactly the services
  that got no node: those after the first as many as there are nodes in the pool.
\<close>

theorem DoRunTest_too_few_nodes:
  assumes "place_bundles (node_service_bundles test)
           (expand_services (services test) {}, snapshot_idle_nodes s, fmempty) =
         Inr (unplaced_services, idle_nodes, node_service_map)"
    and "card idle_nodes < card unplaced_services"
  shows "DoRunTest s test env =
           Returned (Inl (NotFoundError (''No idle node for placement of services: '' @
             comma_separated (drop (card idle_nodes) (sorted_list_of_set unplaced_services)))), s)"
proof -
  from assms(1) have pb: "place_bundles (node_service_bundles test)
           (expand_services (services test) {}, fmdom' (node_map s), fmempty) =
         Inr (unplaced_services, idle_nodes, node_service_map)"
    unfolding snapshot_idle_nodes_eq .
  have sep0: "expand_services (services test) {} \<inter> placed_services fmempty = {}" by simp
  from place_bundles_effect [OF pb sep0]
  have sub: "unplaced_services \<subseteq> expand_services (services test) {}" by simp
  have sv: "services test \<noteq> []"
  proof
    assume "services test = []"
    then have "expand_services (services test) {} = {}" by (simp add: expand_services_def)
    with sub have "unplaced_services = {}" by simp
    with assms(2) show False by simp
  qed
  have "DoRunTest_placement s test =
          Inl (NotFoundError (''No idle node for placement of services: '' @
             comma_separated (drop (card idle_nodes) (sorted_list_of_set unplaced_services))))"
    unfolding DoRunTest_placement_after_bundles(1) [OF sv pb] using assms(2) by simp
  then show ?thesis unfolding DoRunTest_def by simp
qed

theorem DoRunTest_too_few_nodes_witness:
  "DoRunTest two_nodes three_of_A configure_fails =
     Returned (Inl (NotFoundError ''No idle node for placement of services: A/2''), two_nodes)"
proof -
  let ?U = "expand_services (services three_of_A) {}"
  let ?I = "snapshot_idle_nodes two_nodes"
  have pb: "place_bundles (node_service_bundles three_of_A) (?U, ?I, fmempty) = Inr (?U, ?I, fmempty)"
    by (simp add: three_of_A_def)
  have few: "card ?I < card ?U" by code_simp
  have msg: "comma_separated (drop (card ?I) (sorted_list_of_set ?U)) = ''A/2''" by code_simp
  from DoRunTest_too_few_nodes [OF pb few, of configure_fails]
  show ?thesis unfolding msg by simp
qed

end
